theory Spec2Isabelle
  imports Complex_Main "HOL-Library.Multiset" "HOL-Library.Product_Lexorder"
    "HOL-Library.List_Lexorder" "HOL-Library.Char_ord"
begin

section \<open>Synthetic-data generator (db/seed.py)\<close>

text \<open>
  \<^verbatim>\<open>SEVERITIES\<close> pairs each severity tier with the bounds of its score range, and
  \<^verbatim>\<open>SEVERITY_WEIGHTS\<close> gives the sampling weight of each tier.
\<close>

definition SEVERITIES :: "(string \<times> int \<times> int) list" where
  "SEVERITIES = [(''low'', 1, 3), (''medium'', 4, 5), (''high'', 6, 8), (''critical'', 9, 10)]"

definition SEVERITY_WEIGHTS :: "rat list" where
  "SEVERITY_WEIGHTS = [30 / 100, 35 / 100, 25 / 100, 10 / 100]"

text \<open>
  The standard library's \<^verbatim>\<open>bisect_right(a, x, lo, hi)\<close>, the search that
  \<^verbatim>\<open>random.choices\<close> runs over the cumulative weights:
  \<^verbatim>\<open>while lo < hi: mid = (lo + hi) // 2; if x < a[mid]: hi = mid else: lo = mid + 1\<close>.
\<close>

function bisect :: "rat list \<Rightarrow> rat \<Rightarrow> nat \<Rightarrow> nat \<Rightarrow> nat" where
  "bisect a x lo hi =
     (if lo < hi
      then (let mid = (lo + hi) div 2
            in if x < a ! mid then bisect a x lo mid else bisect a x (mid + 1) hi)
      else lo)"
  by pat_completeness auto
termination
  by (relation "measure (\<lambda>(a, x, lo, hi). hi - lo)") auto

text \<open>\<^verbatim>\<open>itertools.accumulate\<close>: the running sums of the weights.\<close>

fun accumulate :: "rat \<Rightarrow> rat list \<Rightarrow> rat list" where
  "accumulate acc [] = []"
| "accumulate acc (w # ws) = (acc + w) # accumulate (acc + w) ws"

text \<open>
  \<^verbatim>\<open>random.choices(population, weights=weights, k=1)[0]\<close>. The draw of
  \<^verbatim>\<open>random()\<close> is the argument \<open>u\<close>; the search is bounded by
  \<^verbatim>\<open>hi = len(population) - 1\<close>, as in the library. The library computes the
  cumulative weights in binary floating point; they are exact rationals here.
\<close>

definition choices1 :: "'a list \<Rightarrow> rat list \<Rightarrow> rat \<Rightarrow> 'a" where
  "choices1 population weights u =
     (let cum_weights = accumulate 0 weights;
          total = last cum_weights;
          hi = length population - 1
      in population ! bisect cum_weights (u * total) 0 hi)"

text \<open>
  \<^verbatim>\<open>random.randint(a, b)\<close> returns \<^verbatim>\<open>a + randbelow(b - a + 1)\<close>; the raw draw
  \<open>v\<close> is reduced into the width of the range.
\<close>

definition randint :: "int \<Rightarrow> int \<Rightarrow> nat \<Rightarrow> int" where
  "randint a b v = a + int (v mod nat (b - a + 1))"

text \<open>
  The first two statements of \<^verbatim>\<open>generate_event\<close>: the tier is drawn with the fixed
  weights, then the score is drawn inside the bounds of that tier. The result is the
  pair (\<^verbatim>\<open>severity_label\<close>, \<^verbatim>\<open>severity_score\<close>) stored in the generated event;
  every other field comes from later, separate draws.
\<close>

definition generate_event :: "rat \<Rightarrow> nat \<Rightarrow> string \<times> int" where
  "generate_event u v =
     (let sev_choice = choices1 SEVERITIES SEVERITY_WEIGHTS u;
          severity_label = fst sev_choice;
          score_min = fst (snd sev_choice);
          score_max = snd (snd sev_choice);
          severity_score = randint score_min score_max v
      in (severity_label, severity_score))"

text \<open>The data-model invariant: the score lies in the sub-range of its tier.\<close>

definition score_in_tier :: "string \<times> int \<Rightarrow> bool" where
  "score_in_tier ev =
     (let label = fst ev; score = snd ev
      in (label = ''low'' \<and> 1 \<le> score \<and> score \<le> 3) \<or>
         (label = ''medium'' \<and> 4 \<le> score \<and> score \<le> 5) \<or>
         (label = ''high'' \<and> 6 \<le> score \<and> score \<le> 8) \<or>
         (label = ''critical'' \<and> 9 \<le> score \<and> score \<le> 10))"


section \<open>The event store\<close>

text \<open>
  A row of the table \<^verbatim>\<open>security_events\<close>, with the columns the seed script inserts and
  the serial key \<^verbatim>\<open>id\<close>. A timestamp is the number of microseconds since the epoch,
  which is how PostgreSQL stores it; the session time zone is UTC.
\<close>

record security_event =
  id' :: int
  event_id :: string
  timestamp :: int
  source_ip :: string
  destination_ip :: string
  source_port :: int
  destination_port :: int
  protocol :: string
  event_type :: string
  severity :: string
  severity_score :: int
  description :: string
  threat_category :: string
  action_taken :: string
  user_agent :: "string option"
  geo_country :: string
  raw_log :: string

section \<open>SQL building blocks\<close>

text \<open>\<^verbatim>\<open>date_trunc('hour', t)\<close> and \<^verbatim>\<open>INTERVAL 'n hours'\<close>, in microseconds.\<close>

definition date_trunc_hour :: "int \<Rightarrow> int" where
  "date_trunc_hour t = t - t mod 3600000000"

definition interval_hours :: "int \<Rightarrow> int" where
  "interval_hours n = n * 3600000000"

text \<open>
  \<^verbatim>\<open>GROUP BY\<close>: one group per distinct key, holding the rows with that key.
  \<^verbatim>\<open>PARTITION BY\<close> of a window splits the rows the same way.
\<close>

definition group_by :: "('a \<Rightarrow> 'k) \<Rightarrow> 'a list \<Rightarrow> ('k \<times> 'a list) list" where
  "group_by f xs = map (\<lambda>k. (k, filter (\<lambda>x. f x = k) xs)) (remdups (map f xs))"

definition partition_by :: "('a \<Rightarrow> 'k) \<Rightarrow> 'a list \<Rightarrow> 'a list list" where
  "partition_by f xs = map snd (group_by f xs)"

text \<open>\<^verbatim>\<open>MIN\<close> and \<^verbatim>\<open>MAX\<close> are NULL (\<open>None\<close>) over no rows.\<close>

definition agg_min :: "int list \<Rightarrow> int option" where
  "agg_min xs = (case xs of [] \<Rightarrow> None | y # ys \<Rightarrow> Some (fold min ys y))"

definition agg_max :: "int list \<Rightarrow> int option" where
  "agg_max xs = (case xs of [] \<Rightarrow> None | y # ys \<Rightarrow> Some (fold max ys y))"

text \<open>
  Window frames over an ordered partition, for the row at position \<open>i\<close> (from 0):
  \<^verbatim>\<open>ROWS UNBOUNDED PRECEDING\<close> is the rows up to and including the current one,
  \<^verbatim>\<open>ROWS BETWEEN k PRECEDING AND CURRENT ROW\<close> the current row and at most \<open>k\<close>
  rows before it.
\<close>

definition rows_unbounded_preceding :: "'a list \<Rightarrow> nat \<Rightarrow> 'a list" where
  "rows_unbounded_preceding xs i = take (Suc i) xs"

definition rows_preceding :: "nat \<Rightarrow> 'a list \<Rightarrow> nat \<Rightarrow> 'a list" where
  "rows_preceding k xs i = drop (i - k) (take (Suc i) xs)"

text \<open>\<^verbatim>\<open>AVG\<close> of a non-empty frame of counts, an exact \<^verbatim>\<open>numeric\<close>.\<close>

definition avg :: "nat list \<Rightarrow> rat" where
  "avg xs = of_nat (sum_list xs) / of_nat (length xs)"

text \<open>
  \<^verbatim>\<open>ROUND(x, d)\<close> on \<^verbatim>\<open>numeric\<close>: to \<open>d\<close> decimal places, a tie going away from
  zero.
\<close>

definition pg_round :: "rat \<Rightarrow> nat \<Rightarrow> rat" where
  "pg_round x d = sgn x * of_int \<lfloor>\<bar>x\<bar> * 10 ^ d + 1 / 2\<rfloor> / 10 ^ d"

text \<open>
  \<^verbatim>\<open>RANK()\<close> of the row at position \<open>i\<close> of a partition ordered by the keys \<open>ks\<close>:
  one more than the number of rows before it that are not its peers.
  \<^verbatim>\<open>PERCENT_RANK()\<close> is \<open>(rank - 1) / (rows - 1)\<close>, and 0 in a partition of one row.
\<close>

definition rank_at :: "'k list \<Rightarrow> nat \<Rightarrow> nat" where
  "rank_at ks i = 1 + length (filter (\<lambda>k. k \<noteq> ks ! i) (take i ks))"

definition percent_rank_at :: "'k list \<Rightarrow> nat \<Rightarrow> rat" where
  "percent_rank_at ks i =
     (if length ks \<le> 1 then 0 else of_nat (rank_at ks i - 1) / of_nat (length ks - 1))"

section \<open>Severity trend (get\_severity\_trend)\<close>

record hourly_count =
  hour_bucket :: int
  severity' :: string
  event_count :: nat

record running_row = hourly_count +
  running_total :: nat
  moving_avg_7h :: rat

text \<open>The grouping key of an event, and the same two columns of a grouped row.\<close>

definition bucket_key :: "security_event \<Rightarrow> int \<times> string" where
  "bucket_key e = (date_trunc_hour (timestamp e), severity e)"

definition row_key :: "'a hourly_count_scheme \<Rightarrow> int \<times> string" where
  "row_key h = (hour_bucket h, severity' h)"

text \<open>
  The common table expression \<^verbatim>\<open>hourly_counts\<close>: events grouped by
  \<^verbatim>\<open>(date_trunc('hour', timestamp), severity)\<close> and counted.
\<close>

definition hourly_counts :: "security_event list \<Rightarrow> hourly_count list" where
  "hourly_counts events =
     map (\<lambda>(k, grp). \<lparr>hour_bucket = fst k, severity' = snd k, event_count = length grp\<rparr>)
       (group_by bucket_key events)"

text \<open>
  The common table expression \<^verbatim>\<open>running\<close>: inside each severity partition, ordered by
  \<^verbatim>\<open>hour_bucket\<close>, the sum over \<^verbatim>\<open>ROWS UNBOUNDED PRECEDING\<close> and the rounded average
  over \<^verbatim>\<open>ROWS BETWEEN 6 PRECEDING AND CURRENT ROW\<close>.
\<close>

definition running_partition :: "hourly_count list \<Rightarrow> running_row list" where
  "running_partition part =
     (let rows = sort_key hour_bucket part;
          counts = map event_count rows
      in map (\<lambda>i. \<lparr>hour_bucket = hour_bucket (rows ! i),
                    severity' = severity' (rows ! i),
                    event_count = event_count (rows ! i),
                    running_total = sum_list (rows_unbounded_preceding counts i),
                    moving_avg_7h = pg_round (avg (rows_preceding 6 counts i)) 2\<rparr>)
           [0..<length rows])"

definition running :: "hourly_count list \<Rightarrow> running_row list" where
  "running hc = concat (map running_partition (partition_by severity' hc))"

text \<open>
  The query of \<^verbatim>\<open>get_severity_trend\<close>. The cutoff is
  \<^verbatim>\<open>MAX(hour_bucket) - INTERVAL 'limit hours'\<close> over all of \<^verbatim>\<open>hourly_counts\<close>; over no
  rows it is NULL and the comparison keeps no row. The result is ordered by
  \<^verbatim>\<open>hour_bucket ASC, severity\<close>.
\<close>

definition get_severity_trend :: "int \<Rightarrow> security_event list \<Rightarrow> running_row list" where
  "get_severity_trend limit events =
     (let hc = hourly_counts events
      in case agg_max (map hour_bucket hc) of
           None \<Rightarrow> []
         | Some m \<Rightarrow>
             sort_key row_key
               (filter (\<lambda>r. hour_bucket r \<ge> m - interval_hours limit) (running hc)))"

text \<open>
  The trailing window in the words of the specification: of the buckets of partition \<open>s\<close>
  at or before bucket \<open>b\<close>, in time order, the last \<open>k\<close> (all of them when there are
  fewer).
\<close>

definition trailing_window :: "nat \<Rightarrow> hourly_count list \<Rightarrow> string \<Rightarrow> int \<Rightarrow> hourly_count list" where
  "trailing_window k hc s b =
     (let upto = sort_key hour_bucket (filter (\<lambda>h. severity' h = s \<and> hour_bucket h \<le> b) hc)
      in drop (length upto - k) upto)"

section \<open>Top attackers (get\_top\_attackers)\<close>

text \<open>
  A window \<^verbatim>\<open>OVER (ORDER BY key)\<close> with no partition: the rows are ordered by the key
  and the window function is evaluated at every position of that order.
\<close>

definition window_over :: "('a \<Rightarrow> 'k::linorder) \<Rightarrow> ('k list \<Rightarrow> nat \<Rightarrow> 'v) \<Rightarrow> 'a list \<Rightarrow> ('a \<times> 'v) list" where
  "window_over key fn rows =
     (let ordered = sort_key key rows;
          ks = map key ordered
      in map (\<lambda>i. (ordered ! i, fn ks i)) [0..<length ordered])"

record attacker_stats_row =
  source_ip' :: string
  total_events :: nat
  critical_events :: nat
  high_events :: nat
  unique_attack_types :: nat
  first_seen :: "int option"
  last_seen :: "int option"

record ranked_row = attacker_stats_row +
  attack_rank :: nat
  percentile :: rat
  pct_of_total :: rat

text \<open>
  The common table expression \<^verbatim>\<open>attacker_stats\<close>: events grouped by
  \<^verbatim>\<open>source_ip\<close>, with the aggregates of each group.
\<close>

definition attacker_stats :: "security_event list \<Rightarrow> attacker_stats_row list" where
  "attacker_stats events =
     map (\<lambda>(ip, grp).
            \<lparr>source_ip' = ip,
             total_events = length grp,
             critical_events = length (filter (\<lambda>e. severity e = ''critical'') grp),
             high_events = length (filter (\<lambda>e. severity e = ''high'') grp),
             unique_attack_types = length (remdups (map event_type grp)),
             first_seen = agg_min (map timestamp grp),
             last_seen = agg_max (map timestamp grp)\<rparr>)
       (group_by source_ip events)"

text \<open>
  The common table expression \<^verbatim>\<open>ranked\<close>.
  \<^verbatim>\<open>RANK() OVER (ORDER BY total_events DESC)\<close> orders by the negated count;
  \<^verbatim>\<open>PERCENT_RANK() OVER (ORDER BY total_events)\<close> orders by the count;
  \<^verbatim>\<open>SUM(total_events) OVER ()\<close> is the sum over all rows. PostgreSQL computes
  \<^verbatim>\<open>PERCENT_RANK\<close> and the share of the total in double precision before the cast
  to \<^verbatim>\<open>NUMERIC\<close>; both quotients are exact rationals here.
\<close>

definition ranked :: "attacker_stats_row list \<Rightarrow> ranked_row list" where
  "ranked stats =
     (let total = sum_list (map total_events stats);
          w1 = window_over (\<lambda>a. - int (total_events a)) rank_at stats;
          w2 = window_over (\<lambda>p. total_events (fst p)) percent_rank_at w1
      in map (\<lambda>p. let a = fst (fst p); rk = snd (fst p); pr = snd p
                  in \<lparr>source_ip' = source_ip' a,
                      total_events = total_events a,
                      critical_events = critical_events a,
                      high_events = high_events a,
                      unique_attack_types = unique_attack_types a,
                      first_seen = first_seen a,
                      last_seen = last_seen a,
                      attack_rank = rk,
                      percentile = pg_round pr 4,
                      pct_of_total = pg_round (of_nat (total_events a) / of_nat total * 100) 4\<rparr>)
           w2)"

text \<open>
  The query of \<^verbatim>\<open>get_top_attackers\<close>:
  \<^verbatim>\<open>SELECT * FROM ranked WHERE attack_rank <= limit ORDER BY attack_rank\<close>.
\<close>

definition get_top_attackers :: "int \<Rightarrow> security_event list \<Rightarrow> ranked_row list" where
  "get_top_attackers limit events =
     sort_key attack_rank
       (filter (\<lambda>r. int (attack_rank r) \<le> limit) (ranked (attacker_stats events)))"

text \<open>
  The percent rank in the words of the specification: for an entity at rank position
  \<open>r\<close> (from 1, in ascending order of total) among \<open>n\<close> entities it is
  \<open>(r - 1) / (n - 1)\<close>, and 0 when \<open>n = 1\<close>. The rank position of a total is one
  more than the number of entities with a strictly smaller total.
\<close>

definition percent_rank_formula :: "nat \<Rightarrow> nat \<Rightarrow> rat" where
  "percent_rank_formula r n = (if n = 1 then 0 else (of_nat r - 1) / (of_nat n - 1))"

definition ascending_position :: "attacker_stats_row list \<Rightarrow> nat \<Rightarrow> nat" where
  "ascending_position stats t = 1 + length (filter (\<lambda>a. total_events a < t) stats)"

section \<open>Connection pool (backend/app/database.py)\<close>

text \<open>The exceptions the modelled code can raise.\<close>

datatype error = RuntimeError | PoolError | OperationalError | DatabaseError
  | ProgrammingError | TypeError | ZeroDivisionError

text \<open>
  The pool object of the driver, as far as \<^verbatim>\<open>getconn\<close> and \<^verbatim>\<open>putconn\<close> use it: the
  bounds, the closed flag, the list of idle connections, the set of checked-out
  connections, and the number of connections opened so far, which names the next one.
\<close>

type_synonym connection = nat

record connection_pool =
  minconn :: nat
  maxconn :: nat
  closed :: bool
  idle :: "connection list"
  used :: "connection set"
  opened :: nat

text \<open>
  \<^verbatim>\<open>getconn\<close>: a closed pool raises; otherwise the last idle connection is popped and
  checked out; with no idle connection a new one is opened unless \<^verbatim>\<open>maxconn\<close> are
  checked out already. \<open>connect_ok\<close> says whether opening a connection succeeds.
\<close>

definition getconn :: "bool \<Rightarrow> connection_pool \<Rightarrow> error + (connection \<times> connection_pool)" where
  "getconn connect_ok p =
     (if closed p then Inl PoolError
      else if idle p \<noteq> []
        then Inr (last (idle p),
                  p\<lparr>idle := butlast (idle p), used := insert (last (idle p)) (used p)\<rparr>)
      else if card (used p) = maxconn p then Inl PoolError
      else if \<not> connect_ok then Inl OperationalError
      else Inr (opened p, p\<lparr>used := insert (opened p) (used p), opened := Suc (opened p)\<rparr>))"

text \<open>
  \<^verbatim>\<open>putconn\<close>: a closed pool or a connection that is not checked out raises; otherwise
  the connection goes back to the idle list when fewer than \<^verbatim>\<open>minconn\<close> are idle and
  it is still usable (\<open>reusable\<close>), is closed and dropped if not, and in both cases leaves
  the checked-out set.
\<close>

definition putconn :: "bool \<Rightarrow> connection \<Rightarrow> connection_pool \<Rightarrow> error + connection_pool" where
  "putconn reusable conn p =
     (if closed p then Inl PoolError
      else if conn \<notin> used p then Inl PoolError
      else Inr ((if length (idle p) < minconn p \<and> reusable
                 then p\<lparr>idle := idle p @ [conn]\<rparr> else p)
                \<lparr>used := used p - {conn}\<rparr>))"

text \<open>
  The module keeps the pool in the global \<^verbatim>\<open>_connection_pool\<close>, \<^verbatim>\<open>None\<close> until
  \<^verbatim>\<open>init_pool\<close> has run. \<^verbatim>\<open>init_pool\<close> opens \<^verbatim>\<open>minconn\<close> idle connections.
  \<^verbatim>\<open>close_pool\<close> calls \<^verbatim>\<open>closeall\<close> on an existing pool: it raises on a pool that is
  closed already, and otherwise closes the connections and sets the closed flag; the
  idle list and the checked-out set are left as they are.
\<close>

definition init_pool :: "bool \<Rightarrow> nat \<Rightarrow> nat \<Rightarrow> error + connection_pool option" where
  "init_pool connect_ok minc maxc =
     (if \<not> connect_ok \<and> 0 < minc then Inl OperationalError
      else Inr (Some \<lparr>minconn = minc, maxconn = maxc, closed = False, idle = [0..<minc],
                       used = {}, opened = minc\<rparr>))"

definition close_pool :: "connection_pool option \<Rightarrow> error + connection_pool option" where
  "close_pool pool =
     (case pool of
        None \<Rightarrow> Inr None
      | Some p \<Rightarrow> if closed p then Inl PoolError else Inr (Some (p\<lparr>closed := True\<rparr>)))"

definition get_connection :: "bool \<Rightarrow> connection_pool option \<Rightarrow> error + (connection \<times> connection_pool option)" where
  "get_connection connect_ok pool =
     (case pool of
        None \<Rightarrow> Inl RuntimeError
      | Some p \<Rightarrow>
          (case getconn connect_ok p of
             Inl e \<Rightarrow> Inl e
           | Inr (conn, p') \<Rightarrow> Inr (conn, Some p')))"

definition release_connection :: "bool \<Rightarrow> connection_pool option \<Rightarrow> connection \<Rightarrow> error + connection_pool option" where
  "release_connection reusable pool conn =
     (case pool of
        None \<Rightarrow> Inr None
      | Some p \<Rightarrow>
          (case putconn reusable conn p of
             Inl e \<Rightarrow> Inl e
           | Inr p' \<Rightarrow> Inr (Some p')))"

text \<open>
  What the store does with a statement on a connection: \<^verbatim>\<open>cur.execute\<close> raises, or
  the cursor has a \<^verbatim>\<open>description\<close> (\<^verbatim>\<open>None\<close> for a statement without a result set)
  and the rows to fetch. The environment of a call collects this with the two outcomes of
  the driver that the code does not control.
\<close>

record 'v environment =
  connect_ok :: bool
  reusable :: bool
  execute :: "connection \<Rightarrow> string \<Rightarrow> 'v list \<Rightarrow> error + (string list option \<times> 'v list list)"

datatype 'v query_result = Rows "(string \<times> 'v) list list" | Row "(string \<times> 'v) list option"

text \<open>
  The body of the \<^verbatim>\<open>try\<close> block of \<^verbatim>\<open>execute_query\<close>: iterating over a
  \<^verbatim>\<open>description\<close> that is \<^verbatim>\<open>None\<close> raises \<^verbatim>\<open>TypeError\<close>; with
  \<^verbatim>\<open>fetch_all=False\<close> the first row is returned as a dictionary, and \<^verbatim>\<open>None\<close> when
  there is no row or the row has no column (\<^verbatim>\<open>if row else None\<close>).
\<close>

definition query_body :: "'v environment \<Rightarrow> connection \<Rightarrow> string \<Rightarrow> 'v list \<Rightarrow> bool \<Rightarrow> error + 'v query_result" where
  "query_body env conn query params fetch_all =
     (case execute env conn query params of
        Inl e \<Rightarrow> Inl e
      | Inr (descr, fetched) \<Rightarrow>
          (case descr of
             None \<Rightarrow> Inl TypeError
           | Some columns \<Rightarrow>
               if fetch_all then Inr (Rows (map (zip columns) fetched))
               else (case fetched of
                       [] \<Rightarrow> Inr (Row None)
                     | row # _ \<Rightarrow>
                         if row = [] then Inr (Row None)
                         else Inr (Row (Some (zip columns row))))))"

text \<open>
  The body of the \<^verbatim>\<open>try\<close> block of \<^verbatim>\<open>execute_scalar\<close>: \<^verbatim>\<open>fetchone\<close> raises
  \<^verbatim>\<open>ProgrammingError\<close> after a statement without a result set; the first value of
  the first row is returned, and \<^verbatim>\<open>None\<close> when there is no row or the row has no
  column (\<^verbatim>\<open>result[0] if result else None\<close>).
\<close>

definition scalar_body :: "'v environment \<Rightarrow> connection \<Rightarrow> string \<Rightarrow> 'v list \<Rightarrow> error + 'v option" where
  "scalar_body env conn query params =
     (case execute env conn query params of
        Inl e \<Rightarrow> Inl e
      | Inr (descr, fetched) \<Rightarrow>
          (case descr of
             None \<Rightarrow> Inl ProgrammingError
           | Some columns \<Rightarrow>
               (case fetched of
                  [] \<Rightarrow> Inr None
                | row # _ \<Rightarrow> (case row of [] \<Rightarrow> Inr None | v # _ \<Rightarrow> Inr (Some v)))))"

text \<open>
  \<^verbatim>\<open>try: ... finally: release_connection(conn)\<close>: the release runs after the body
  whatever its outcome, and an exception of the release replaces that outcome.
\<close>

definition try_finally_release :: "bool \<Rightarrow> connection_pool option \<Rightarrow> connection \<Rightarrow> error + 'r \<Rightarrow> (error + 'r) \<times> connection_pool option" where
  "try_finally_release reus pool conn outcome =
     (case release_connection reus pool conn of
        Inl e \<Rightarrow> (Inl e, pool)
      | Inr pool' \<Rightarrow> (outcome, pool'))"

definition execute_query :: "'v environment \<Rightarrow> connection_pool option \<Rightarrow> string \<Rightarrow> 'v list \<Rightarrow> bool \<Rightarrow> (error + 'v query_result) \<times> connection_pool option" where
  "execute_query env pool query params fetch_all =
     (case get_connection (connect_ok env) pool of
        Inl e \<Rightarrow> (Inl e, pool)
      | Inr (conn, pool1) \<Rightarrow>
          try_finally_release (reusable env) pool1 conn
            (query_body env conn query params fetch_all))"

definition execute_scalar :: "'v environment \<Rightarrow> connection_pool option \<Rightarrow> string \<Rightarrow> 'v list \<Rightarrow> (error + 'v option) \<times> connection_pool option" where
  "execute_scalar env pool query params =
     (case get_connection (connect_ok env) pool of
        Inl e \<Rightarrow> (Inl e, pool)
      | Inr (conn, pool1) \<Rightarrow>
          try_finally_release (reusable env) pool1 conn
            (scalar_body env conn query params))"

text \<open>The connections checked out of the pool, none before the pool exists.\<close>

definition checked_out :: "connection_pool option \<Rightarrow> connection set" where
  "checked_out pool = (case pool of None \<Rightarrow> {} | Some p \<Rightarrow> used p)"

text \<open>
  The states the pool can be in: finitely many connections are checked out, no connection
  is idle twice or idle and checked out at the same time, and every connection was opened
  by the pool.
\<close>

definition pool_ok :: "connection_pool option \<Rightarrow> bool" where
  "pool_ok pool =
     (case pool of
        None \<Rightarrow> True
      | Some p \<Rightarrow> finite (used p) \<and> distinct (idle p)
                  \<and> list_all (\<lambda>c. c \<notin> used p \<and> c < opened p) (idle p)
                  \<and> Ball (used p) (\<lambda>c. c < opened p))"

section \<open>Recent events (get\_recent\_events)\<close>








record pagination_info =
  page :: int
  page_size :: int
  total :: int
  total_pages :: int








section \<open>KPI summary (get\_kpis)\<close>

text \<open>A result row as the dictionary \<^verbatim>\<open>execute_query\<close> builds: column names with values.\<close>

type_synonym kpi_row = "(string \<times> rat) list"

text \<open>\<^verbatim>\<open>COUNT(DISTINCT column)\<close>.\<close>

definition count_distinct :: "('a \<Rightarrow> 'b) \<Rightarrow> 'a list \<Rightarrow> nat" where
  "count_distinct f rows = length (remdups (map f rows))"

text \<open>
  Modelled from the spec: the view \<^verbatim>\<open>v_kpi_summary\<close>, whose SQL is not among the
  sources. It yields a single record: the total event count; the counts per severity
  tier; the average severity score; the numbers of distinct source addresses, destination
  addresses, event types and threat categories; the counts of all events and of severe
  (high or critical) events in the trailing 24 hours before \<open>now\<close>; and the average events
  per hour, the total divided by the hours the dataset spans, or 0 for an empty dataset.
  Every field is 0 for an empty dataset. The specification gives no value for the average
  per hour of a dataset that spans no time; it is 0 here.
\<close>

definition v_kpi_summary :: "int \<Rightarrow> security_event list \<Rightarrow> kpi_row" where
  "v_kpi_summary now events =
     (let n = length events;
          tier = (\<lambda>s. of_nat (length (filter (\<lambda>e. severity e = s) events)));
          recent = filter (\<lambda>e. now - interval_hours 24 \<le> timestamp e) events;
          span = (case (agg_min (map timestamp events), agg_max (map timestamp events)) of
                    (Some lo, Some hi) \<Rightarrow> of_int (hi - lo) / of_int (interval_hours 1)
                  | _ \<Rightarrow> (0 :: rat))
      in [(''total_events'', of_nat n),
          (''critical_events'', tier ''critical''),
          (''high_events'', tier ''high''),
          (''medium_events'', tier ''medium''),
          (''low_events'', tier ''low''),
          (''avg_severity_score'',
             if n = 0 then 0 else of_int (sum_list (map severity_score events)) / of_nat n),
          (''unique_source_ips'', of_nat (count_distinct source_ip events)),
          (''unique_dest_ips'', of_nat (count_distinct destination_ip events)),
          (''unique_event_types'', of_nat (count_distinct event_type events)),
          (''unique_threat_categories'', of_nat (count_distinct threat_category events)),
          (''events_last_24h'', of_nat (length recent)),
          (''severe_last_24h'',
             of_nat (length (filter (\<lambda>e. severity e = ''high'' \<or> severity e = ''critical'') recent))),
          (''avg_events_per_hour'', if n = 0 \<or> span = 0 then 0 else of_nat n / span)])"

text \<open>
  \<^verbatim>\<open>serialize_row\<close> on a row of numbers: a \<^verbatim>\<open>Decimal\<close> becomes a \<^verbatim>\<open>float\<close> of
  the same value and every other number is kept.
\<close>

definition serialize_row :: "kpi_row \<Rightarrow> kpi_row" where
  "serialize_row row = map (\<lambda>(key, v). (key, v)) row"

text \<open>
  \<^verbatim>\<open>get_kpis\<close> on the result of \<^verbatim>\<open>execute_query(query, fetch_all=False)\<close>: a row, or
  \<^verbatim>\<open>None\<close> when the query yields no row. \<^verbatim>\<open>not result\<close> holds for \<^verbatim>\<open>None\<close> and
  for an empty dictionary.
\<close>

definition get_kpis :: "kpi_row option \<Rightarrow> kpi_row" where
  "get_kpis result =
     (if result = None \<or> result = Some []
      then [(''total_events'', 0),
            (''critical_events'', 0),
            (''high_events'', 0),
            (''medium_events'', 0),
            (''low_events'', 0),
            (''avg_severity_score'', 0),
            (''unique_source_ips'', 0),
            (''unique_dest_ips'', 0),
            (''unique_event_types'', 0),
            (''unique_threat_categories'', 0),
            (''events_last_24h'', 0),
            (''severe_last_24h'', 0),
            (''avg_events_per_hour'', 0)]
      else serialize_row (the result))"

section \<open>Sample data\<close>

text \<open>
  A row with the given timestamp, source address, severity and event type; the other
  columns are fixed.
\<close>

definition sample_event :: "int \<Rightarrow> string \<Rightarrow> string \<Rightarrow> string \<Rightarrow> security_event" where
  "sample_event ts ip sev ty =
     \<lparr>id' = 0, event_id = '''', timestamp = ts, source_ip = ip, destination_ip = ''10.0.0.1'',
      source_port = 1024, destination_port = 443, protocol = ''TCP'', event_type = ty,
      severity = sev, severity_score = 1, description = '''', threat_category = ''malware'',
      action_taken = ''logged'', user_agent = None, geo_country = ''US'', raw_log = ''''\<rparr>"

definition trend_events :: "security_event list" where
  "trend_events =
     [sample_event 0 ''1.1.1.1'' ''high'' ''port_scan'',
      sample_event 3600000000 ''1.1.1.1'' ''high'' ''port_scan'',
      sample_event 3600000001 ''2.2.2.2'' ''high'' ''brute_force'',
      sample_event 7200000000 ''1.1.1.1'' ''low'' ''port_scan'']"

definition trend_row :: running_row where
  "trend_row = \<lparr>hour_bucket = 3600000000, severity' = ''high'', event_count = 2,
                 running_total = 3, moving_avg_7h = 3 / 2\<rparr>"

text \<open>Three source addresses with 10, 10 and 5 events.\<close>

definition attacker_events :: "security_event list" where
  "attacker_events =
     replicate 10 (sample_event 0 ''1.1.1.1'' ''high'' ''port_scan'')
     @ replicate 5 (sample_event 0 ''3.3.3.3'' ''low'' ''port_scan'')
     @ replicate 10 (sample_event 0 ''2.2.2.2'' ''critical'' ''brute_force'')"

text \<open>The rows the ranking computes for these events.\<close>

definition attacker_row_a :: ranked_row where
  "attacker_row_a =
     \<lparr>source_ip' = ''1.1.1.1'', total_events = 10, critical_events = 0, high_events = 10,
      unique_attack_types = 1, first_seen = Some 0, last_seen = Some 0,
      attack_rank = 1, percentile = 1 / 2, pct_of_total = 40\<rparr>"

definition attacker_row_b :: ranked_row where
  "attacker_row_b =
     \<lparr>source_ip' = ''2.2.2.2'', total_events = 10, critical_events = 10, high_events = 0,
      unique_attack_types = 1, first_seen = Some 0, last_seen = Some 0,
      attack_rank = 1, percentile = 1 / 2, pct_of_total = 40\<rparr>"

definition attacker_row_c :: ranked_row where
  "attacker_row_c =
     \<lparr>source_ip' = ''3.3.3.3'', total_events = 5, critical_events = 0, high_events = 0,
      unique_attack_types = 1, first_seen = Some 0, last_seen = Some 0,
      attack_rank = 3, percentile = 0, pct_of_total = 20\<rparr>"


text \<open>
  A pool with one connection checked out and one idle, and a store on which every
  statement fails.
\<close>

definition sample_pool :: "connection_pool option" where
  "sample_pool = Some \<lparr>minconn = 2, maxconn = 10, closed = False, idle = [0], used = {1},
                         opened = 2\<rparr>"

definition failing_env :: "int environment" where
  "failing_env = \<lparr>connect_ok = True, reusable = True,
                   execute = (\<lambda>conn query params. Inl DatabaseError)\<rparr>"



text \<open>
  Events of high severity in three consecutive hours, 1, 2 and 2 of them, and the row of
  the third hour: the mean 5 / 3 of the three counts is rounded to 1.67.
\<close>

definition rounding_events :: "security_event list" where
  "rounding_events =
     [sample_event 0 ''1.1.1.1'' ''high'' ''port_scan'',
      sample_event 3600000000 ''1.1.1.1'' ''high'' ''port_scan'',
      sample_event 3600000001 ''1.1.1.1'' ''high'' ''port_scan'',
      sample_event 7200000000 ''1.1.1.1'' ''high'' ''port_scan'',
      sample_event 7200000005 ''1.1.1.1'' ''high'' ''port_scan'']"

definition rounding_row :: running_row where
  "rounding_row = \<lparr>hour_bucket = 7200000000, severity' = ''high'', event_count = 2,
                    running_total = 5, moving_avg_7h = 167 / 100\<rparr>"

text \<open>
  Four source addresses with 1, 2, 3 and 4 events, and the row of the address with 3
  events: its percent rank 2 / 3 is rounded to 0.6667.
\<close>

definition percentile_events :: "security_event list" where
  "percentile_events =
     replicate 1 (sample_event 0 ''1.1.1.1'' ''low'' ''port_scan'')
     @ replicate 2 (sample_event 0 ''2.2.2.2'' ''low'' ''port_scan'')
     @ replicate 3 (sample_event 0 ''3.3.3.3'' ''low'' ''port_scan'')
     @ replicate 4 (sample_event 0 ''4.4.4.4'' ''low'' ''port_scan'')"

definition percentile_row :: ranked_row where
  "percentile_row =
     \<lparr>source_ip' = ''3.3.3.3'', total_events = 3, critical_events = 0, high_events = 0,
      unique_attack_types = 1, first_seen = Some 0, last_seen = Some 0,
      attack_rank = 2, percentile = 6667 / 10000, pct_of_total = 30\<rparr>"

section \<open>Properties of the generator\<close>

lemma bisect_bounds: "lo \<le> hi \<Longrightarrow> lo \<le> bisect a x lo hi \<and> bisect a x lo hi \<le> hi"
proof (induction a x lo hi rule: bisect.induct)
  case (1 a x lo hi)
  show ?case
  proof (cases "lo < hi")
    case False
    with "1.prems" show ?thesis by simp
  next
    case True
    define mid where "mid = (lo + hi) div 2"
    have m: "lo \<le> mid" "mid < hi" using True by (simp_all add: mid_def)
    show ?thesis
    proof (cases "x < a ! mid")
      case True
      from "1.IH"(1)[OF \<open>lo < hi\<close> mid_def True m(1)] m \<open>lo < hi\<close> True
      show ?thesis by (simp add: mid_def Let_def)
    next
      case False
      have "mid + 1 \<le> hi" using m by simp
      from "1.IH"(2)[OF \<open>lo < hi\<close> mid_def False this] m \<open>lo < hi\<close> False
      show ?thesis by (simp add: mid_def Let_def)
    qed
  qed
qed

lemma randint_bounds: "a \<le> b \<Longrightarrow> a \<le> randint a b v \<and> randint a b v \<le> b"
proof -
  assume ab: "a \<le> b"
  have pos: "0 < nat (b - a + 1)" using ab by simp
  have "v mod nat (b - a + 1) < nat (b - a + 1)" using pos by (rule mod_less_divisor)
  then have "int (v mod nat (b - a + 1)) < b - a + 1" using ab by linarith
  then show ?thesis by (simp add: randint_def)
qed

lemma choices1_SEVERITIES:
  "choices1 SEVERITIES SEVERITY_WEIGHTS u \<in> set SEVERITIES"
proof -
  have "bisect (accumulate 0 SEVERITY_WEIGHTS) (u * last (accumulate 0 SEVERITY_WEIGHTS)) 0 3 \<le> 3"
    using bisect_bounds[of 0 3] by simp
  then have "bisect (accumulate 0 SEVERITY_WEIGHTS) (u * last (accumulate 0 SEVERITY_WEIGHTS)) 0 3
      < length SEVERITIES"
    by (simp add: SEVERITIES_def)
  then have "SEVERITIES ! bisect (accumulate 0 SEVERITY_WEIGHTS)
      (u * last (accumulate 0 SEVERITY_WEIGHTS)) 0 3 \<in> set SEVERITIES"
    by (rule nth_mem)
  moreover have "length SEVERITIES - 1 = 3" by (simp add: SEVERITIES_def)
  ultimately show ?thesis by (simp add: choices1_def Let_def)
qed

text \<open>
  Claim C10. Whatever the two random draws are, the event built by
  \<^verbatim>\<open>generate_event\<close> has a score inside the range of its tier: low in 1..3, medium in
  4..5, high in 6..8 and critical in 9..10.
\<close>

theorem generate_event_score_in_tier: "score_in_tier (generate_event u v)"
proof -
  define c where "c = choices1 SEVERITIES SEVERITY_WEIGHTS u"
  have "c \<in> set SEVERITIES" unfolding c_def by (rule choices1_SEVERITIES)
  then consider "c = (''low'', 1, 3)" | "c = (''medium'', 4, 5)" | "c = (''high'', 6, 8)"
    | "c = (''critical'', 9, 10)"
    by (auto simp: SEVERITIES_def)
  then show ?thesis
  proof cases
    case 1
    with randint_bounds[of 1 3 v] show ?thesis
      by (simp add: generate_event_def score_in_tier_def Let_def c_def[symmetric])
  next
    case 2
    with randint_bounds[of 4 5 v] show ?thesis
      by (simp add: generate_event_def score_in_tier_def Let_def c_def[symmetric])
  next
    case 3
    with randint_bounds[of 6 8 v] show ?thesis
      by (simp add: generate_event_def score_in_tier_def Let_def c_def[symmetric])
  next
    case 4
    with randint_bounds[of 9 10 v] show ?thesis
      by (simp add: generate_event_def score_in_tier_def Let_def c_def[symmetric])
  qed
qed

section \<open>Lemmas about the SQL building blocks\<close>

lemma group_by_keys: "map fst (group_by f xs) = remdups (map f xs)"
  by (simp add: group_by_def comp_def)

lemma group_by_mem: "(k, g) \<in> set (group_by f xs) \<longleftrightarrow> k \<in> f ` set xs \<and> g = filter (\<lambda>x. f x = k) xs"
  by (auto simp: group_by_def)

lemma sum_length_groups:
  "distinct ks \<Longrightarrow> sum_list (map (\<lambda>k. length (filter (\<lambda>x. f x = k) xs)) ks) = length (filter (\<lambda>x. f x \<in> set ks) xs)"
proof (induction ks)
  case Nil
  then show ?case by simp
next
  case (Cons k ks)
  have "length (filter (\<lambda>x. f x \<in> set (k # ks)) xs)
      = length (filter (\<lambda>x. f x = k) xs) + length (filter (\<lambda>x. f x \<in> set ks) xs)"
    using Cons.prems by (induction xs) auto
  with Cons show ?case by simp
qed

lemma take_Suc_sorted_filter:
  "sorted (map f xs) \<Longrightarrow> distinct (map f xs) \<Longrightarrow> i < length xs \<Longrightarrow>
   take (Suc i) xs = filter (\<lambda>x. f x \<le> f (xs ! i)) xs"
proof (induction xs arbitrary: i)
  case Nil
  then show ?case by simp
next
  case (Cons a xs)
  show ?case
  proof (cases i)
    case 0
    have "\<forall>x\<in>set xs. f a \<le> f x" using Cons.prems(1) by simp
    moreover have "\<forall>x\<in>set xs. f x \<noteq> f a" using Cons.prems(2) by (force simp: image_iff)
    ultimately have "\<forall>x\<in>set xs. \<not> f x \<le> f a" by (auto dest: antisym)
    then have "filter (\<lambda>x. f x \<le> f a) xs = []" by (simp add: filter_empty_conv)
    with 0 show ?thesis by simp
  next
    case (Suc j)
    then have j: "j < length xs" using Cons.prems(3) by simp
    have "f a \<le> f (xs ! j)" using Cons.prems(1) j by simp
    moreover have "take (Suc j) xs = filter (\<lambda>x. f x \<le> f (xs ! j)) xs"
      using Cons.IH[of j] Cons.prems j by simp
    ultimately show ?thesis using Suc by simp
  qed
qed

lemma pg_round_nonneg: "0 \<le> x \<Longrightarrow> 0 \<le> pg_round x d"
  by (simp add: pg_round_def sgn_if)

lemma pg_round_of_nat: "pg_round (of_nat n) d = of_nat n"
proof -
  have "\<lfloor>(of_nat n :: rat) * 10 ^ d + 1 / 2\<rfloor> = \<lfloor>of_int (int n * 10 ^ d) + (1 / 2 :: rat)\<rfloor>"
    by simp
  also have "\<dots> = int n * 10 ^ d" by (rule floor_unique) simp_all
  finally show ?thesis by (simp add: pg_round_def sgn_if)
qed

lemma pg_round_mono: "0 \<le> x \<Longrightarrow> x \<le> y \<Longrightarrow> pg_round x d \<le> pg_round y d"
proof -
  assume a: "0 \<le> x" "x \<le> y"
  have "\<lfloor>x * 10 ^ d + 1 / 2\<rfloor> \<le> \<lfloor>y * 10 ^ d + 1 / 2\<rfloor>"
    using a by (intro floor_mono) (simp add: mult_right_mono)
  then have "(of_int \<lfloor>x * 10 ^ d + 1 / 2\<rfloor> :: rat) / 10 ^ d \<le> of_int \<lfloor>y * 10 ^ d + 1 / 2\<rfloor> / 10 ^ d"
    by (simp add: divide_right_mono)
  then show ?thesis using a by (cases "x = 0"; cases "y = 0") (simp_all add: pg_round_def sgn_if)
qed

lemma avg_le: "xs \<noteq> [] \<Longrightarrow> \<forall>x\<in>set xs. x \<le> m \<Longrightarrow> avg xs \<le> of_nat m"
proof -
  assume ne: "xs \<noteq> []" and b: "\<forall>x\<in>set xs. x \<le> m"
  have "sum_list xs \<le> length xs * m" using b
    by (induction xs) auto
  then have "(of_nat (sum_list xs) :: rat) \<le> of_nat (length xs * m)" by (simp only: of_nat_le_iff)
  then have "(of_nat (sum_list xs) :: rat) \<le> of_nat (length xs) * of_nat m" by simp
  moreover have "(0::rat) < of_nat (length xs)" using ne by simp
  ultimately show ?thesis by (simp add: avg_def pos_divide_le_eq mult.commute)
qed

lemma avg_nonneg: "0 \<le> avg xs"
  by (simp add: avg_def)

lemma pg_round_floor: "0 \<le> x \<Longrightarrow> pg_round x d = of_int \<lfloor>x * 10 ^ d + 1 / 2\<rfloor> / 10 ^ d"
proof (cases "x = 0")
  case True
  have "\<lfloor>(1::rat) / 2\<rfloor> = 0" by (rule floor_unique) simp_all
  with True show ?thesis by (simp add: pg_round_def)
next
  case False
  assume "0 \<le> x"
  with False have "0 < x" by simp
  then show ?thesis by (simp add: pg_round_def)
qed

lemma pg_round_grid: "pg_round x d * 10 ^ d \<in> \<int>"
proof -
  have "pg_round x d * 10 ^ d = sgn x * of_int \<lfloor>\<bar>x\<bar> * 10 ^ d + 1 / 2\<rfloor>"
    by (simp add: pg_round_def)
  also have "\<dots> = of_int ((if x < 0 then - 1 else if x = 0 then 0 else 1) * \<lfloor>\<bar>x\<bar> * 10 ^ d + 1 / 2\<rfloor>)"
    by (simp add: sgn_if)
  finally show ?thesis by (simp only: Ints_of_int)
qed

lemma pg_round_near:
  assumes "0 \<le> x"
  shows "x - 1 / (2 * 10 ^ d) < pg_round x d \<and> pg_round x d \<le> x + 1 / (2 * 10 ^ d)"
proof -
  let ?k = "\<lfloor>x * 10 ^ d + 1 / 2\<rfloor>"
  have p: "(0::rat) < 10 ^ d" by simp
  have lo: "of_int ?k \<le> x * 10 ^ d + 1 / 2" by (rule of_int_floor_le)
  have hi: "x * 10 ^ d + 1 / 2 < of_int ?k + 1" using floor_correct[of "x * 10 ^ d + 1 / 2"] by simp
  have "of_int ?k / 10 ^ d \<le> (x * 10 ^ d + 1 / 2) / 10 ^ d"
    using lo p by (simp add: divide_right_mono)
  also have "\<dots> = x + 1 / (2 * 10 ^ d)" by (simp add: add_divide_distrib)
  finally have u: "of_int ?k / 10 ^ d \<le> x + 1 / (2 * 10 ^ d)" .
  have "(x * 10 ^ d - 1 / 2) / 10 ^ d < of_int ?k / 10 ^ d"
    using hi p by (simp add: divide_strict_right_mono)
  moreover have "(x * 10 ^ d - 1 / 2) / 10 ^ d = x - 1 / (2 * 10 ^ d)"
    by (simp add: diff_divide_distrib)
  ultimately have l: "x - 1 / (2 * 10 ^ d) < of_int ?k / 10 ^ d" by simp
  from u l show ?thesis by (simp only: pg_round_floor[OF assms])
qed

section \<open>Properties of the severity trend\<close>

lemma hourly_counts_keys:
  "map row_key (hourly_counts events) = remdups (map bucket_key events)"
  by (simp add: hourly_counts_def group_by_def comp_def row_key_def)

lemma hourly_counts_distinct: "distinct (map row_key (hourly_counts events))"
  by (simp add: hourly_counts_keys)

lemma hourly_counts_sum:
  "sum_list (map event_count (filter (\<lambda>h. P (row_key h)) (hourly_counts events)))
     = length (filter (\<lambda>e. P (bucket_key e)) events)"
proof -
  let ?ks = "filter P (remdups (map bucket_key events))"
  have "filter (\<lambda>h. P (row_key h)) (hourly_counts events)
      = map (\<lambda>k. \<lparr>hour_bucket = fst k, severity' = snd k,
                   event_count = length (filter (\<lambda>e. bucket_key e = k) events)\<rparr>) ?ks"
    by (simp add: hourly_counts_def group_by_def filter_map comp_def row_key_def)
  then have "sum_list (map event_count (filter (\<lambda>h. P (row_key h)) (hourly_counts events)))
      = sum_list (map (\<lambda>k. length (filter (\<lambda>e. bucket_key e = k) events)) ?ks)"
    by (simp add: comp_def)
  also have "\<dots> = length (filter (\<lambda>e. bucket_key e \<in> set ?ks) events)"
    by (rule sum_length_groups) simp
  also have "\<dots> = length (filter (\<lambda>e. P (bucket_key e)) events)"
    by (rule arg_cong[where f=length], rule filter_cong) auto
  finally show ?thesis .
qed

lemma sum_list_filter_sort_key:
  "sum_list (map (g :: 'a \<Rightarrow> nat) (filter P (sort_key f xs))) = sum_list (map g (filter P xs))"
proof -
  have "mset (map g (filter P (sort_key f xs))) = mset (map g (filter P xs))"
    by simp
  then have "sum_mset (mset (map g (filter P (sort_key f xs)))) = sum_mset (mset (map g (filter P xs)))"
    by (rule arg_cong)
  then show ?thesis by (simp only: sum_mset_sum_list)
qed

lemma map_nth_upt: "map (\<lambda>i. g (xs ! i)) [0..<length xs] = map g xs"
  by (rule nth_equalityI) simp_all

lemma running_partition_keys:
  "map row_key (running_partition part) = map row_key (sort_key hour_bucket part)"
proof -
  let ?rows = "sort_key hour_bucket part"
  have "map row_key (running_partition part) = map (\<lambda>i. row_key (?rows ! i)) [0..<length ?rows]"
    by (simp add: running_partition_def Let_def row_key_def comp_def)
  also have "\<dots> = map row_key ?rows" by (rule map_nth_upt)
  finally show ?thesis .
qed

lemma mset_concat_groups:
  "distinct ks \<Longrightarrow>
   mset (concat (map (\<lambda>k. filter (\<lambda>x. f x = k) xs) ks)) = filter_mset (\<lambda>x. f x \<in> set ks) (mset xs)"
proof (induction ks)
  case Nil
  then show ?case by simp
next
  case (Cons k ks)
  have "filter_mset (\<lambda>x. f x \<in> set (k # ks)) (mset xs)
      = filter_mset (\<lambda>x. f x = k) (mset xs) + filter_mset (\<lambda>x. f x \<in> set ks) (mset xs)"
    using Cons.prems by (induction xs) auto
  with Cons show ?case by simp
qed

lemma partition_by_eq:
  "partition_by f xs = map (\<lambda>k. filter (\<lambda>x. f x = k) xs) (remdups (map f xs))"
  by (simp add: partition_by_def group_by_def comp_def)

lemma mset_concat_partition_by: "mset (concat (partition_by f xs)) = mset xs"
proof -
  have "mset (concat (partition_by f xs)) = filter_mset (\<lambda>x. f x \<in> set (remdups (map f xs))) (mset xs)"
    unfolding partition_by_eq by (rule mset_concat_groups) simp
  also have "\<dots> = mset xs" by (simp add: filter_mset_eq_conv) 
  finally show ?thesis .
qed

lemma mset_concat_map_sort:
  "mset (concat (map (\<lambda>p. map g (sort_key f p)) ps)) = mset (map g (concat ps))"
  by (induction ps) simp_all

lemma running_keys_mset: "mset (map row_key (running hc)) = mset (map row_key hc)"
proof -
  have "map row_key (running hc) = concat (map (\<lambda>p. map row_key (running_partition p)) (partition_by severity' hc))"
    by (simp add: running_def map_concat comp_def)
  also have "\<dots> = concat (map (\<lambda>p. map row_key (sort_key hour_bucket p)) (partition_by severity' hc))"
    by (simp add: running_partition_keys)
  finally have "mset (map row_key (running hc))
      = mset (concat (map (\<lambda>p. map row_key (sort_key hour_bucket p)) (partition_by severity' hc)))"
    by simp
  also have "\<dots> = mset (map row_key (concat (partition_by severity' hc)))"
    by (rule mset_concat_map_sort)
  also have "\<dots> = mset (map row_key hc)"
    by (simp add: mset_concat_partition_by)
  finally show ?thesis .
qed

lemma agg_max_Max: "agg_max xs = (if xs = [] then None else Some (Max (set xs)))"
proof (cases xs)
  case Nil
  then show ?thesis by (simp add: agg_max_def)
next
  case (Cons a list)
  then show ?thesis using Max.set_eq_fold[of a list] by (simp add: agg_max_def)
qed

lemma distinct_map_sort_key: "distinct (map g (sort_key f xs)) = distinct (map g xs)"
proof -
  have "mset (map g (sort_key f xs)) = mset (map g xs)" by simp
  then show ?thesis by (rule mset_eq_imp_distinct_iff)
qed

lemma running_partition_row:
  assumes d: "distinct (map hour_bucket part)"
    and r: "r \<in> set (running_partition part)"
  shows "\<exists>h\<in>set part. row_key r = row_key h \<and> event_count r = event_count h \<and>
           running_total r = sum_list (map event_count (filter (\<lambda>x. hour_bucket x \<le> hour_bucket h) part)) \<and>
           moving_avg_7h r = pg_round (avg (map event_count
              (let upto = sort_key hour_bucket (filter (\<lambda>x. hour_bucket x \<le> hour_bucket h) part)
               in drop (length upto - 7) upto))) 2"
proof -
  define rows where "rows = sort_key hour_bucket part"
  have srt: "sorted (map hour_bucket rows)" by (simp add: rows_def)
  have dst: "distinct (map hour_bucket rows)" using d by (simp add: rows_def distinct_map_sort_key)
  from r obtain i where i: "i < length rows"
    and req: "r = \<lparr>hour_bucket = hour_bucket (rows ! i), severity' = severity' (rows ! i),
                    event_count = event_count (rows ! i),
                    running_total = sum_list (rows_unbounded_preceding (map event_count rows) i),
                    moving_avg_7h = pg_round (avg (rows_preceding 6 (map event_count rows) i)) 2\<rparr>"
    by (auto simp: running_partition_def Let_def rows_def[symmetric])
  define h where "h = rows ! i"
  have hin: "h \<in> set part" using i by (simp add: h_def rows_def[symmetric] flip: set_sort[of hour_bucket part])
  have tk: "take (Suc i) rows = filter (\<lambda>x. hour_bucket x \<le> hour_bucket h) rows"
    unfolding h_def by (rule take_Suc_sorted_filter[OF srt dst i])
  have upto: "take (Suc i) rows = sort_key hour_bucket (filter (\<lambda>x. hour_bucket x \<le> hour_bucket h) part)"
    unfolding tk unfolding rows_def by (rule filter_sort)
  have len: "length (take (Suc i) rows) = Suc i" using i by simp
  have rt: "running_total r = sum_list (map event_count (filter (\<lambda>x. hour_bucket x \<le> hour_bucket h) part))"
  proof -
    have "running_total r = sum_list (map event_count (take (Suc i) rows))"
      by (simp add: req rows_unbounded_preceding_def take_map)
    also have "\<dots> = sum_list (map event_count (filter (\<lambda>x. hour_bucket x \<le> hour_bucket h) (sort_key hour_bucket part)))"
      unfolding tk unfolding rows_def ..
    also have "\<dots> = sum_list (map event_count (filter (\<lambda>x. hour_bucket x \<le> hour_bucket h) part))"
      by (rule sum_list_filter_sort_key)
    finally show ?thesis .
  qed
  have ma: "moving_avg_7h r = pg_round (avg (map event_count
              (let upto = sort_key hour_bucket (filter (\<lambda>x. hour_bucket x \<le> hour_bucket h) part)
               in drop (length upto - 7) upto))) 2"
  proof -
    have "rows_preceding 6 (map event_count rows) i = map event_count (drop (i - 6) (take (Suc i) rows))"
      by (simp add: rows_preceding_def take_map drop_map)
    also have "i - 6 = length (take (Suc i) rows) - 7" using len by simp
    finally have "rows_preceding 6 (map event_count rows) i
        = map event_count (drop (length (take (Suc i) rows) - 7) (take (Suc i) rows))" .
    then show ?thesis by (simp add: req upto Let_def)
  qed
  have "row_key r = row_key h" "event_count r = event_count h"
    by (simp_all add: req h_def row_key_def)
  with hin rt ma show ?thesis by blast
qed

lemma partition_member:
  "p \<in> set (partition_by f xs) \<Longrightarrow> \<exists>k. p = filter (\<lambda>x. f x = k) xs"
  by (auto simp: partition_by_eq)

lemma distinct_bucket_in_partition:
  assumes "distinct (map row_key hc)"
  shows "distinct (map hour_bucket (filter (\<lambda>x. severity' x = s) hc))"
proof -
  have "inj_on row_key (set hc)" "distinct hc" using assms by (simp_all add: distinct_map)
  then have "inj_on hour_bucket (set (filter (\<lambda>x. severity' x = s) hc))"
    by (auto simp: inj_on_def row_key_def)
  with \<open>distinct hc\<close> show ?thesis by (simp add: distinct_map)
qed

lemma running_row:
  assumes d: "distinct (map row_key hc)"
    and r: "r \<in> set (running hc)"
  shows "(\<exists>h\<in>set hc. row_key h = row_key r \<and> event_count h = event_count r) \<and>
         running_total r = sum_list (map event_count
            (filter (\<lambda>x. severity' x = severity' r \<and> hour_bucket x \<le> hour_bucket r) hc)) \<and>
         moving_avg_7h r = pg_round (avg (map event_count
            (trailing_window 7 hc (severity' r) (hour_bucket r)))) 2"
proof -
  from r obtain p where p: "p \<in> set (partition_by severity' hc)" and rp: "r \<in> set (running_partition p)"
    by (auto simp: running_def)
  from partition_member[OF p] obtain s where ps: "p = filter (\<lambda>x. severity' x = s) hc" by blast
  have dp: "distinct (map hour_bucket p)" unfolding ps by (rule distinct_bucket_in_partition[OF d])
  from running_partition_row[OF dp rp] obtain h where h: "h \<in> set p" "row_key r = row_key h"
    "event_count r = event_count h"
    "running_total r = sum_list (map event_count (filter (\<lambda>x. hour_bucket x \<le> hour_bucket h) p))"
    "moving_avg_7h r = pg_round (avg (map event_count
              (let upto = sort_key hour_bucket (filter (\<lambda>x. hour_bucket x \<le> hour_bucket h) p)
               in drop (length upto - 7) upto))) 2"
    by blast
  have sh: "severity' h = s" "h \<in> set hc" using h(1) by (simp_all add: ps)
  have kr: "hour_bucket r = hour_bucket h" "severity' r = s" using h(2) sh by (simp_all add: row_key_def)
  have f: "filter (\<lambda>x. hour_bucket x \<le> hour_bucket h) p
      = filter (\<lambda>x. severity' x = severity' r \<and> hour_bucket x \<le> hour_bucket r) hc"
    by (simp add: ps kr conj_commute)
  show ?thesis using h(2,3,4,5) sh(2) unfolding f trailing_window_def by auto
qed

lemma running_has_row:
  assumes "h \<in> set hc"
  shows "\<exists>r\<in>set (running hc). row_key r = row_key h"
proof -
  have "row_key h \<in> set (map row_key hc)" using assms by simp
  then have "row_key h \<in># mset (map row_key (running hc))" by (simp only: running_keys_mset set_mset_mset)
  then show ?thesis by auto
qed


lemma hourly_counts_Nil_iff: "hourly_counts events = [] \<longleftrightarrow> events = []"
proof -
  have "map row_key (hourly_counts events) = [] \<longleftrightarrow> events = []"
    unfolding hourly_counts_keys by (metis map_is_Nil_conv remdups_eq_nil_iff)
  then show ?thesis by simp
qed

lemma get_severity_trend_set:
  "set (get_severity_trend limit events) =
     (if events = [] then {}
      else {r \<in> set (running (hourly_counts events)).
              Max (hour_bucket ` set (hourly_counts events)) - interval_hours limit \<le> hour_bucket r})"
  by (auto simp: get_severity_trend_def Let_def agg_max_Max hourly_counts_Nil_iff)

lemma length_filter_mono:
  "(\<And>x. x \<in> set xs \<Longrightarrow> P x \<Longrightarrow> Q x) \<Longrightarrow> length (filter P xs) \<le> length (filter Q xs)"
  by (induction xs) auto

lemma hourly_counts_sum_upto:
  "sum_list (map event_count (filter (\<lambda>h. severity' h = s \<and> hour_bucket h \<le> b) (hourly_counts events)))
     = length (filter (\<lambda>e. severity e = s \<and> date_trunc_hour (timestamp e) \<le> b) events)"
  using hourly_counts_sum[of "\<lambda>k. snd k = s \<and> fst k \<le> b" events]
  by (simp add: row_key_def bucket_key_def)

lemma hourly_counts_sum_partition:
  "sum_list (map event_count (filter (\<lambda>h. severity' h = s) (hourly_counts events)))
     = length (filter (\<lambda>e. severity e = s) events)"
  using hourly_counts_sum[of "\<lambda>k. snd k = s" events]
  by (simp add: row_key_def bucket_key_def)

text \<open>
  Claim C3. For every row the trend query returns, the running total is the sum of the
  per-bucket counts over all buckets of the row's severity partition at or before the
  row's bucket, where the partition is the one of the full grouped data. Hence, along the
  returned rows of one severity, running totals do not decrease as the bucket grows, and
  the running total of the last returned bucket of a severity is the number of events of
  that severity.
\<close>

theorem severity_trend_running_total:
  assumes r: "r \<in> set (get_severity_trend limit events)"
  shows "running_total r = sum_list (map event_count
            (filter (\<lambda>h. severity' h = severity' r \<and> hour_bucket h \<le> hour_bucket r)
               (hourly_counts events)))
       \<and> (\<forall>r2\<in>set (get_severity_trend limit events).
            severity' r2 = severity' r \<and> hour_bucket r \<le> hour_bucket r2
              \<longrightarrow> running_total r \<le> running_total r2)
       \<and> ((\<forall>r2\<in>set (get_severity_trend limit events).
              severity' r2 = severity' r \<longrightarrow> hour_bucket r2 \<le> hour_bucket r)
            \<longrightarrow> running_total r = length (filter (\<lambda>e. severity e = severity' r) events))"
proof -
  let ?hc = "hourly_counts events"
  let ?out = "get_severity_trend limit events"
  let ?cut = "Max (hour_bucket ` set ?hc) - interval_hours limit"
  have d: "distinct (map row_key ?hc)" by (rule hourly_counts_distinct)
  have mem: "\<And>x. x \<in> set ?out \<longleftrightarrow> x \<in> set (running ?hc) \<and> ?cut \<le> hour_bucket x"
    using r by (auto simp: get_severity_trend_set split: if_splits)
  have rt: "\<And>x. x \<in> set ?out \<Longrightarrow> running_total x = sum_list (map event_count
            (filter (\<lambda>h. severity' h = severity' x \<and> hour_bucket h \<le> hour_bucket x) ?hc))"
    using running_row[OF d] mem by blast
  have rt_ev: "\<And>x. x \<in> set ?out \<Longrightarrow> running_total x
      = length (filter (\<lambda>e. severity e = severity' x \<and> date_trunc_hour (timestamp e) \<le> hour_bucket x) events)"
    by (simp add: rt hourly_counts_sum_upto)
  have c1: "running_total r = sum_list (map event_count
            (filter (\<lambda>h. severity' h = severity' r \<and> hour_bucket h \<le> hour_bucket r) ?hc))"
    by (rule rt[OF r])
  have c2: "\<forall>r2\<in>set ?out. severity' r2 = severity' r \<and> hour_bucket r \<le> hour_bucket r2
              \<longrightarrow> running_total r \<le> running_total r2"
  proof (intro ballI impI)
    fix r2 assume r2: "r2 \<in> set ?out" and h: "severity' r2 = severity' r \<and> hour_bucket r \<le> hour_bucket r2"
    show "running_total r \<le> running_total r2"
      unfolding rt_ev[OF r] rt_ev[OF r2] using h by (intro length_filter_mono) auto
  qed
  have c3: "running_total r = length (filter (\<lambda>e. severity e = severity' r) events)"
    if last: "\<forall>r2\<in>set ?out. severity' r2 = severity' r \<longrightarrow> hour_bucket r2 \<le> hour_bucket r"
  proof -
    have "hour_bucket h \<le> hour_bucket r" if h: "h \<in> set ?hc" "severity' h = severity' r" for h
    proof (rule ccontr)
      assume "\<not> hour_bucket h \<le> hour_bucket r"
      then have gt: "hour_bucket r < hour_bucket h" by simp
      from running_has_row[OF h(1)] obtain r2 where r2: "r2 \<in> set (running ?hc)" "row_key r2 = row_key h"
        by blast
      then have k: "hour_bucket r2 = hour_bucket h" "severity' r2 = severity' h"
        by (simp_all add: row_key_def)
      have "?cut \<le> hour_bucket r" using r mem by blast
      then have "r2 \<in> set ?out" using mem r2(1) k gt by simp
      moreover have "severity' r2 = severity' r" using k h(2) by simp
      ultimately have "hour_bucket r2 \<le> hour_bucket r" using last by blast
      with k gt show False by simp
    qed
    then have "filter (\<lambda>h. severity' h = severity' r \<and> hour_bucket h \<le> hour_bucket r) ?hc
        = filter (\<lambda>h. severity' h = severity' r) ?hc"
      by (intro filter_cong) auto
    then show ?thesis by (simp add: c1 hourly_counts_sum_partition)
  qed
  from c1 c2 c3 show ?thesis by blast
qed

lemma filter_singleton:
  "distinct xs \<Longrightarrow> h \<in> set xs \<Longrightarrow> (\<And>x. x \<in> set xs \<Longrightarrow> P x \<longleftrightarrow> x = h) \<Longrightarrow> filter P xs = [h]"
proof (induction xs)
  case Nil
  then show ?case by simp
next
  case (Cons a xs)
  show ?case
  proof (cases "a = h")
    case True
    have "\<forall>x\<in>set xs. \<not> P x" using Cons.prems True by auto
    then have "filter P xs = []" by (simp add: filter_empty_conv)
    moreover have "P a" using Cons.prems(3)[of a] True by simp
    ultimately show ?thesis using True by simp
  next
    case False
    then have "\<not> P a" using Cons.prems(3)[of a] by simp
    moreover have "filter P xs = [h]" using Cons False by auto
    ultimately show ?thesis by simp
  qed
qed

lemma trailing_window_length:
  "length (trailing_window k hc s b)
     = min k (length (filter (\<lambda>h. severity' h = s \<and> hour_bucket h \<le> b) hc))"
  by (simp add: trailing_window_def Let_def)

lemma trailing_window_subset:
  "set (trailing_window k hc s b) \<subseteq> {h \<in> set hc. severity' h = s \<and> hour_bucket h \<le> b}"
proof -
  have "set (trailing_window k hc s b)
      \<subseteq> set (sort_key hour_bucket (filter (\<lambda>h. severity' h = s \<and> hour_bucket h \<le> b) hc))"
    unfolding trailing_window_def Let_def by (rule set_drop_subset)
  then show ?thesis by auto
qed

text \<open>
  Claim C4. For every row the trend query returns, the moving average is the mean of the
  counts in the trailing window of 7 buckets of the row's partition (the row's bucket and
  up to 6 buckets before it, fewer near the start of the partition), rounded to 2 decimal
  places: it is a multiple of 0.01 at most half of 0.01 away from the mean, the upper one
  when the mean lies halfway. At the first bucket of a partition it is that bucket's own count, and it always
  lies between 0 and every upper bound of the bucket counts of the partition, so between
  0 and their maximum. The partition is the one of the full grouped data.
\<close>

theorem severity_trend_moving_avg:
  assumes r: "r \<in> set (get_severity_trend limit events)"
  shows "moving_avg_7h r = pg_round (avg (map event_count
            (trailing_window 7 (hourly_counts events) (severity' r) (hour_bucket r)))) 2
       \<and> length (trailing_window 7 (hourly_counts events) (severity' r) (hour_bucket r))
            = min 7 (length (filter (\<lambda>h. severity' h = severity' r \<and> hour_bucket h \<le> hour_bucket r)
                 (hourly_counts events)))
       \<and> ((\<forall>h\<in>set (hourly_counts events). severity' h = severity' r \<longrightarrow> hour_bucket r \<le> hour_bucket h)
            \<longrightarrow> moving_avg_7h r = of_nat (event_count r))
       \<and> 0 \<le> moving_avg_7h r
       \<and> (\<forall>m. (\<forall>h\<in>set (hourly_counts events). severity' h = severity' r \<longrightarrow> event_count h \<le> m)
            \<longrightarrow> moving_avg_7h r \<le> of_nat m)
       \<and> moving_avg_7h r
           = of_int \<lfloor>(of_nat (sum_list (map event_count
                        (trailing_window 7 (hourly_counts events) (severity' r) (hour_bucket r)))) :: rat)
                    / of_nat (length
                        (trailing_window 7 (hourly_counts events) (severity' r) (hour_bucket r)))
                    * 10 ^ 2 + 1 / 2\<rfloor> / 10 ^ 2
       \<and> moving_avg_7h r * 10 ^ 2 \<in> \<int>
       \<and> of_nat (sum_list (map event_count
                  (trailing_window 7 (hourly_counts events) (severity' r) (hour_bucket r))))
             / of_nat (length
                  (trailing_window 7 (hourly_counts events) (severity' r) (hour_bucket r)))
             - 1 / 200 < moving_avg_7h r
       \<and> moving_avg_7h r
           \<le> of_nat (sum_list (map event_count
                  (trailing_window 7 (hourly_counts events) (severity' r) (hour_bucket r))))
             / of_nat (length
                  (trailing_window 7 (hourly_counts events) (severity' r) (hour_bucket r)))
             + 1 / 200"
proof -
  let ?hc = "hourly_counts events"
  let ?w = "trailing_window 7 ?hc (severity' r) (hour_bucket r)"
  let ?P = "\<lambda>h. severity' h = severity' r \<and> hour_bucket h \<le> hour_bucket r"
  have d: "distinct (map row_key ?hc)" by (rule hourly_counts_distinct)
  have rin: "r \<in> set (running ?hc)"
    using r by (auto simp: get_severity_trend_set split: if_splits)
  from running_row[OF d rin] obtain h where h: "h \<in> set ?hc" "row_key h = row_key r"
      "event_count h = event_count r"
    and ma: "moving_avg_7h r = pg_round (avg (map event_count ?w)) 2"
    by blast
  have hk: "hour_bucket h = hour_bucket r" "severity' h = severity' r"
    using h(2) by (simp_all add: row_key_def)
  have "h \<in> set (filter ?P ?hc)" using h(1) hk by simp
  then have "filter ?P ?hc \<noteq> []" by (metis empty_iff empty_set)
  then have "0 < length ?w" by (simp add: trailing_window_length)
  then have wne: "?w \<noteq> []" by simp
  have c2: "length ?w = min 7 (length (filter ?P ?hc))" by (rule trailing_window_length)
  have c3: "moving_avg_7h r = of_nat (event_count r)"
    if first: "\<forall>x\<in>set ?hc. severity' x = severity' r \<longrightarrow> hour_bucket r \<le> hour_bucket x"
  proof -
    have inj: "inj_on row_key (set ?hc)" and dhc: "distinct ?hc"
      using d by (simp_all add: distinct_map)
    have "?P x \<longleftrightarrow> x = h" if x: "x \<in> set ?hc" for x
    proof
      assume px: "?P x"
      then have "hour_bucket x = hour_bucket r" using first x by force
      with px hk have "row_key x = row_key h" by (simp add: row_key_def)
      with inj x h(1) show "x = h" by (auto dest: inj_onD)
    next
      assume "x = h"
      then show "?P x" using hk by simp
    qed
    then have "filter ?P ?hc = [h]" by (intro filter_singleton[OF dhc h(1)])
    then have "?w = [h]" by (simp add: trailing_window_def)
    then have "avg (map event_count ?w) = of_nat (event_count r)" by (simp add: avg_def h(3))
    then show ?thesis by (simp add: ma pg_round_of_nat)
  qed
  have c4: "0 \<le> moving_avg_7h r" by (simp add: ma pg_round_nonneg avg_nonneg)
  have c5: "moving_avg_7h r \<le> of_nat m"
    if bound: "\<forall>x\<in>set ?hc. severity' x = severity' r \<longrightarrow> event_count x \<le> m" for m
  proof -
    have "\<forall>c\<in>set (map event_count ?w). c \<le> m"
      using trailing_window_subset[of 7 ?hc "severity' r" "hour_bucket r"] bound by auto
    moreover have "map event_count ?w \<noteq> []" using wne by simp
    ultimately have "avg (map event_count ?w) \<le> of_nat m" by (intro avg_le)
    then have "pg_round (avg (map event_count ?w)) 2 \<le> pg_round (of_nat m) 2"
      by (intro pg_round_mono avg_nonneg)
    then show ?thesis by (simp add: ma pg_round_of_nat)
  qed
  have mean: "avg (map event_count ?w) = of_nat (sum_list (map event_count ?w)) / of_nat (length ?w)"
    by (simp add: avg_def)
  have c6: "moving_avg_7h r
      = of_int \<lfloor>(of_nat (sum_list (map event_count ?w)) :: rat) / of_nat (length ?w) * 10 ^ 2 + 1 / 2\<rfloor> / 10 ^ 2"
    using pg_round_floor[OF avg_nonneg, of "map event_count ?w" 2] by (simp only: ma mean)
  have c7: "moving_avg_7h r * 10 ^ 2 \<in> \<int>"
    unfolding ma by (rule pg_round_grid)
  have c8: "of_nat (sum_list (map event_count ?w)) / of_nat (length ?w) - 1 / 200 < moving_avg_7h r
      \<and> moving_avg_7h r \<le> of_nat (sum_list (map event_count ?w)) / of_nat (length ?w) + 1 / 200"
    using pg_round_near[OF avg_nonneg, of "map event_count ?w" 2] by (simp add: ma mean)
  from ma c2 c3 c4 c5 c6 c7 c8 show ?thesis by blast
qed



lemma trend_events_result:
  "get_severity_trend 1 trend_events =
     [trend_row,
      \<lparr>hour_bucket = 7200000000, severity' = ''low'', event_count = 1, running_total = 1,
         moving_avg_7h = 1\<rparr>]"
  by code_simp

lemma trend_events_hourly:
  "hourly_counts trend_events =
     [\<lparr>hour_bucket = 0, severity' = ''high'', event_count = 1\<rparr>,
      \<lparr>hour_bucket = 3600000000, severity' = ''high'', event_count = 2\<rparr>,
      \<lparr>hour_bucket = 7200000000, severity' = ''low'', event_count = 1\<rparr>]"
  by code_simp

theorem severity_trend_running_total_witness:
  "trend_row \<in> set (get_severity_trend 1 trend_events)
   \<and> sum_list (map event_count
        (filter (\<lambda>h. severity' h = ''high'' \<and> hour_bucket h \<le> 3600000000)
           (hourly_counts trend_events))) = 3
   \<and> length (filter (\<lambda>e. severity e = ''high'') trend_events) = 3"
proof -
  have m: "trend_row \<in> set (get_severity_trend 1 trend_events)"
    by (simp add: trend_events_result)
  have last: "\<forall>r2\<in>set (get_severity_trend 1 trend_events).
      severity' r2 = severity' trend_row \<longrightarrow> hour_bucket r2 \<le> hour_bucket trend_row"
    by (simp add: trend_events_result trend_row_def)
  from severity_trend_running_total[OF m] last
  have "running_total trend_row = sum_list (map event_count
          (filter (\<lambda>h. severity' h = severity' trend_row \<and> hour_bucket h \<le> hour_bucket trend_row)
             (hourly_counts trend_events)))"
    and "running_total trend_row = length (filter (\<lambda>e. severity e = severity' trend_row) trend_events)"
    by blast+
  then show ?thesis using m by (simp add: trend_row_def)
qed

lemma rounding_events_result:
  "get_severity_trend 1 rounding_events =
     [\<lparr>hour_bucket = 3600000000, severity' = ''high'', event_count = 2, running_total = 3,
         moving_avg_7h = 3 / 2\<rparr>,
      rounding_row]"
  by code_simp

lemma rounding_events_hourly:
  "hourly_counts rounding_events =
     [\<lparr>hour_bucket = 0, severity' = ''high'', event_count = 1\<rparr>,
      \<lparr>hour_bucket = 3600000000, severity' = ''high'', event_count = 2\<rparr>,
      \<lparr>hour_bucket = 7200000000, severity' = ''high'', event_count = 2\<rparr>]"
  by code_simp

lemma rounding_events_window:
  "map event_count (trailing_window 7 (hourly_counts rounding_events) ''high'' 7200000000)
     = [1, 2, 2]"
  by code_simp

theorem severity_trend_moving_avg_witness:
  "rounding_row \<in> set (get_severity_trend 1 rounding_events)
   \<and> map event_count (trailing_window 7 (hourly_counts rounding_events) ''high'' 7200000000)
       = [1, 2, 2]
   \<and> moving_avg_7h rounding_row = 167 / 100
   \<and> of_int \<lfloor>(of_nat (sum_list (map event_count
                  (trailing_window 7 (hourly_counts rounding_events) ''high'' 7200000000))) :: rat)
              / of_nat (length
                  (trailing_window 7 (hourly_counts rounding_events) ''high'' 7200000000))
              * 10 ^ 2 + 1 / 2\<rfloor> / 10 ^ 2
       = (167 / 100 :: rat)
   \<and> pg_round (avg (map event_count
        (trailing_window 7 (hourly_counts rounding_events) ''high'' 7200000000))) 2 = 167 / 100
   \<and> moving_avg_7h rounding_row \<le> 2"
proof -
  have m: "rounding_row \<in> set (get_severity_trend 1 rounding_events)"
    by (simp add: rounding_events_result)
  have b: "\<forall>h\<in>set (hourly_counts rounding_events).
      severity' h = severity' rounding_row \<longrightarrow> event_count h \<le> 2"
    by (simp add: rounding_events_hourly)
  have k: "severity' rounding_row = ''high''" "hour_bucket rounding_row = 7200000000"
    "moving_avg_7h rounding_row = 167 / 100"
    by (simp_all add: rounding_row_def)
  from severity_trend_moving_avg[OF m] b
  have "moving_avg_7h rounding_row = pg_round (avg (map event_count
            (trailing_window 7 (hourly_counts rounding_events) (severity' rounding_row)
               (hour_bucket rounding_row)))) 2"
    and "moving_avg_7h rounding_row
           = of_int \<lfloor>(of_nat (sum_list (map event_count
                        (trailing_window 7 (hourly_counts rounding_events) (severity' rounding_row)
                           (hour_bucket rounding_row)))) :: rat)
                    / of_nat (length
                        (trailing_window 7 (hourly_counts rounding_events) (severity' rounding_row)
                           (hour_bucket rounding_row)))
                    * 10 ^ 2 + 1 / 2\<rfloor> / 10 ^ 2"
    and "moving_avg_7h rounding_row \<le> of_nat 2"
    by blast+
  then show ?thesis using m rounding_events_window by (simp only: k) simp
qed


section \<open>Properties of the ranking\<close>

lemma rank_at_sorted:
  assumes s: "sorted ks" and i: "i < length ks"
  shows "rank_at ks i = 1 + length (filter (\<lambda>k. k < ks ! i) ks)"
proof -
  have before: "\<forall>k\<in>set (take i ks). k \<le> ks ! i"
    using s i by (auto simp: in_set_conv_nth sorted_iff_nth_mono)
  have after: "\<forall>k\<in>set (drop i ks). ks ! i \<le> k"
    using s i by (auto simp: in_set_conv_nth sorted_iff_nth_mono)
  have "filter (\<lambda>k. k < ks ! i) ks
      = filter (\<lambda>k. k < ks ! i) (take i ks) @ filter (\<lambda>k. k < ks ! i) (drop i ks)"
    by (metis append_take_drop_id filter_append)
  moreover have "filter (\<lambda>k. k < ks ! i) (drop i ks) = []"
    using after by (auto simp: filter_empty_conv)
  moreover have "filter (\<lambda>k. k < ks ! i) (take i ks) = filter (\<lambda>k. k \<noteq> ks ! i) (take i ks)"
    using before by (intro filter_cong) auto
  ultimately show ?thesis by (simp add: rank_at_def)
qed

lemma length_filter_sort_key:
  "length (filter P (sort_key f xs)) = length (filter P xs)"
proof -
  have "mset (filter P (sort_key f xs)) = mset (filter P xs)" by simp
  then show ?thesis by (rule mset_eq_length)
qed

lemma window_over_fst: "map fst (window_over key fn rows) = sort_key key rows"
proof -
  have "map fst (window_over key fn rows)
      = map (\<lambda>i. sort_key key rows ! i) [0..<length (sort_key key rows)]"
    by (simp add: window_over_def Let_def comp_def)
  also have "\<dots> = sort_key key rows" by (rule map_nth)
  finally show ?thesis .
qed

lemma window_over_mset: "mset (map fst (window_over key fn rows)) = mset rows"
  by (simp add: window_over_fst)

lemma window_over_length: "length (window_over key fn rows) = length rows"
  by (simp add: window_over_def Let_def)

lemma window_over_mem:
  assumes "p \<in> set (window_over key fn rows)"
  shows "\<exists>i<length rows. fst p = sort_key key rows ! i \<and> snd p = fn (map key (sort_key key rows)) i"
  using assms by (auto simp: window_over_def Let_def)

lemma window_over_rank:
  assumes "p \<in> set (window_over key rank_at rows)"
  shows "snd p = 1 + length (filter (\<lambda>b. key b < key (fst p)) rows)"
proof -
  let ?o = "sort_key key rows"
  from window_over_mem[OF assms] obtain i where i: "i < length rows" "fst p = ?o ! i"
    "snd p = rank_at (map key ?o) i" by blast
  have "rank_at (map key ?o) i = 1 + length (filter (\<lambda>k. k < map key ?o ! i) (map key ?o))"
    by (rule rank_at_sorted) (simp_all add: i(1))
  also have "map key ?o ! i = key (fst p)" using i by simp
  also have "length (filter (\<lambda>k. k < key (fst p)) (map key ?o))
      = length (filter (\<lambda>b. key b < key (fst p)) ?o)"
    by (simp add: filter_map comp_def)
  also have "\<dots> = length (filter (\<lambda>b. key b < key (fst p)) rows)"
    by (rule length_filter_sort_key)
  finally show ?thesis using i(3) by simp
qed

lemma window_over_percent_rank:
  assumes "p \<in> set (window_over key percent_rank_at rows)"
  shows "snd p = (if length rows \<le> 1 then 0
                 else of_nat (length (filter (\<lambda>b. key b < key (fst p)) rows)) / of_nat (length rows - 1))"
proof -
  let ?o = "sort_key key rows"
  from window_over_mem[OF assms] obtain i where i: "i < length rows" "fst p = ?o ! i"
    "snd p = percent_rank_at (map key ?o) i" by blast
  have "rank_at (map key ?o) i = 1 + length (filter (\<lambda>k. k < map key ?o ! i) (map key ?o))"
    by (rule rank_at_sorted) (simp_all add: i(1))
  also have "map key ?o ! i = key (fst p)" using i by simp
  also have "length (filter (\<lambda>k. k < key (fst p)) (map key ?o))
      = length (filter (\<lambda>b. key b < key (fst p)) ?o)"
    by (simp add: filter_map comp_def)
  also have "\<dots> = length (filter (\<lambda>b. key b < key (fst p)) rows)"
    by (rule length_filter_sort_key)
  finally have "rank_at (map key ?o) i - 1 = length (filter (\<lambda>b. key b < key (fst p)) rows)"
    by simp
  then show ?thesis using i(3) by (simp add: percent_rank_at_def)
qed

lemma window_over_set_fst: "p \<in> set (window_over key fn rows) \<Longrightarrow> fst p \<in> set rows"
proof -
  assume "p \<in> set (window_over key fn rows)"
  then have "fst p \<in> set (map fst (window_over key fn rows))" by simp
  then show ?thesis by (simp only: window_over_fst set_sort)
qed

lemma length_filter_window_over:
  "length (filter (\<lambda>q. P (fst q)) (window_over key fn rows)) = length (filter P rows)"
proof -
  have "length (filter (\<lambda>q. P (fst q)) (window_over key fn rows))
      = length (filter P (map fst (window_over key fn rows)))"
    by (simp add: filter_map comp_def)
  also have "\<dots> = length (filter P rows)"
    by (simp only: window_over_fst length_filter_sort_key)
  finally show ?thesis .
qed

lemma ranked_row:
  assumes r: "r \<in> set (ranked stats)"
  shows "attack_rank r = 1 + length (filter (\<lambda>b. total_events r < total_events b) stats)
       \<and> percentile r = pg_round
            (if length stats \<le> 1 then 0
             else of_nat (length (filter (\<lambda>b. total_events b < total_events r) stats))
                    / of_nat (length stats - 1)) 4"
proof -
  define w1 where "w1 = window_over (\<lambda>a. - int (total_events a)) rank_at stats"
  define w2 where "w2 = window_over (\<lambda>p. total_events (fst p)) percent_rank_at w1"
  from r obtain p where p: "p \<in> set w2"
    and tr: "total_events r = total_events (fst (fst p))"
    and rk: "attack_rank r = snd (fst p)"
    and pc: "percentile r = pg_round (snd p) 4"
    by (auto simp: ranked_def Let_def w1_def[symmetric] w2_def[symmetric])
  have p1: "fst p \<in> set w1" using p unfolding w2_def by (rule window_over_set_fst)
  have "snd (fst p) = 1 + length (filter (\<lambda>b. - int (total_events b) < - int (total_events (fst (fst p)))) stats)"
    using p1 unfolding w1_def by (rule window_over_rank)
  then have c1: "attack_rank r = 1 + length (filter (\<lambda>b. total_events r < total_events b) stats)"
    by (simp add: rk tr)
  have l1: "length w1 = length stats" by (simp add: w1_def window_over_length)
  have "snd p = (if length w1 \<le> 1 then 0
                 else of_nat (length (filter (\<lambda>q. total_events (fst q) < total_events (fst (fst p))) w1))
                        / of_nat (length w1 - 1))"
    using p unfolding w2_def by (rule window_over_percent_rank)
  moreover have "length (filter (\<lambda>q. total_events (fst q) < total_events (fst (fst p))) w1)
      = length (filter (\<lambda>b. total_events b < total_events (fst (fst p))) stats)"
    unfolding w1_def by (rule length_filter_window_over)
  ultimately have c2: "percentile r = pg_round
            (if length stats \<le> 1 then 0
             else of_nat (length (filter (\<lambda>b. total_events b < total_events r) stats))
                    / of_nat (length stats - 1)) 4"
    by (simp add: pc tr l1)
  from c1 c2 show ?thesis ..
qed

lemma ranked_entities:
  "mset (map (\<lambda>r. (source_ip' r, total_events r)) (ranked stats))
     = mset (map (\<lambda>a. (source_ip' a, total_events a)) stats)"
proof -
  define w1 where "w1 = window_over (\<lambda>a. - int (total_events a)) rank_at stats"
  define w2 where "w2 = window_over (\<lambda>p. total_events (fst p)) percent_rank_at w1"
  let ?g = "\<lambda>a. (source_ip' a, total_events a)"
  have "map (\<lambda>r. (source_ip' r, total_events r)) (ranked stats) = map ?g (map fst (map fst w2))"
    by (simp add: ranked_def Let_def w1_def[symmetric] w2_def[symmetric] comp_def)
  then have "mset (map (\<lambda>r. (source_ip' r, total_events r)) (ranked stats))
      = image_mset ?g (image_mset fst (mset (map fst w2)))"
    by (simp add: multiset.map_comp comp_def)
  also have "mset (map fst w2) = mset w1" unfolding w2_def by (rule window_over_mset)
  also have "image_mset fst (mset w1) = mset (map fst w1)" by simp
  also have "mset (map fst w1) = mset stats" unfolding w1_def by (rule window_over_mset)
  finally show ?thesis by simp
qed

lemma attacker_stats_keys: "map source_ip' (attacker_stats events) = remdups (map source_ip events)"
  by (simp add: attacker_stats_def group_by_def comp_def)

lemma attacker_stats_total:
  "a \<in> set (attacker_stats events) \<Longrightarrow>
   total_events a = length (filter (\<lambda>e. source_ip e = source_ip' a) events)"
  by (auto simp: attacker_stats_def group_by_def)

lemma length_filter_disj:
  "(\<And>x. x \<in> set xs \<Longrightarrow> \<not> (P x \<and> Q x)) \<Longrightarrow>
   length (filter (\<lambda>x. P x \<or> Q x) xs) = length (filter P xs) + length (filter Q xs)"
  by (induction xs) auto

lemma length_filter_image_mset:
  "length (filter (\<lambda>a. P (f a)) xs) = size (filter_mset P (mset (map f xs)))"
proof -
  have "size (filter_mset P (mset (map f xs))) = length (filter P (map f xs))"
    by (simp only: mset_filter[symmetric] size_mset)
  then show ?thesis by (simp add: filter_map comp_def)
qed

lemma ranked_totals: "mset (map total_events (ranked stats)) = mset (map total_events stats)"
proof -
  have "image_mset snd (mset (map (\<lambda>r. (source_ip' r, total_events r)) (ranked stats)))
      = image_mset snd (mset (map (\<lambda>a. (source_ip' a, total_events a)) stats))"
    by (simp only: ranked_entities)
  then show ?thesis by (simp add: multiset.map_comp comp_def)
qed

lemma ranked_ips: "mset (map source_ip' (ranked stats)) = mset (map source_ip' stats)"
proof -
  have "image_mset fst (mset (map (\<lambda>r. (source_ip' r, total_events r)) (ranked stats)))
      = image_mset fst (mset (map (\<lambda>a. (source_ip' a, total_events a)) stats))"
    by (simp only: ranked_entities)
  then show ?thesis by (simp add: multiset.map_comp comp_def)
qed

lemma ranked_count:
  "length (filter (\<lambda>r. P (total_events r)) (ranked stats))
     = length (filter (\<lambda>a. P (total_events a)) stats)"
  by (simp only: length_filter_image_mset[of P total_events] ranked_totals)

lemma ranked_total_events:
  assumes "r \<in> set (ranked (attacker_stats events))"
  shows "total_events r = length (filter (\<lambda>e. source_ip e = source_ip' r) events)"
proof -
  have "(source_ip' r, total_events r) \<in> set (map (\<lambda>r. (source_ip' r, total_events r)) (ranked (attacker_stats events)))"
    using assms by auto
  then have "(source_ip' r, total_events r) \<in># mset (map (\<lambda>a. (source_ip' a, total_events a)) (attacker_stats events))"
    by (simp only: ranked_entities[symmetric] set_mset_mset)
  then obtain a where a: "a \<in> set (attacker_stats events)" "source_ip' a = source_ip' r"
    "total_events a = total_events r" by auto
  from attacker_stats_total[OF a(1)] a(2,3) show ?thesis by simp
qed

lemma get_top_attackers_set:
  "set (get_top_attackers limit events)
     = {r \<in> set (ranked (attacker_stats events)). int (attack_rank r) \<le> limit}"
  by (auto simp: get_top_attackers_def)

text \<open>
  Claim C1. Ranks follow competition ranking over the per-source-address totals. For every
  ranked entity (the rows \<^verbatim>\<open>get_top_attackers\<close> returns are among them): its total is the
  number of events from its address; its rank is one more than the number of entities
  with a strictly larger total, so an entity with the maximum total has rank 1, entities
  with equal totals have equal ranks, and the entity with the next smaller total has the
  rank of the tie group above it plus the size of that group. In particular, with totals
  10, 10 and 5 the ranks are 1, 1 and 3.
\<close>

theorem top_attackers_rank:
  assumes r: "r \<in> set (ranked (attacker_stats events))"
  shows "set (get_top_attackers limit events) \<subseteq> set (ranked (attacker_stats events))
       \<and> total_events r = length (filter (\<lambda>e. source_ip e = source_ip' r) events)
       \<and> attack_rank r = 1 + length (filter (\<lambda>a. total_events r < total_events a) (attacker_stats events))
       \<and> ((\<forall>a\<in>set (attacker_stats events). total_events a \<le> total_events r) \<longrightarrow> attack_rank r = 1)
       \<and> (\<forall>r2\<in>set (ranked (attacker_stats events)).
             total_events r2 = total_events r \<longrightarrow> attack_rank r2 = attack_rank r)
       \<and> (\<forall>r2\<in>set (ranked (attacker_stats events)).
             total_events r2 < total_events r
             \<and> (\<forall>a\<in>set (attacker_stats events).
                   \<not> (total_events r2 < total_events a \<and> total_events a < total_events r))
             \<longrightarrow> attack_rank r2 = attack_rank r
                   + length (filter (\<lambda>a. total_events a = total_events r) (attacker_stats events)))
       \<and> (mset (map total_events (attacker_stats events)) = {#10, 10, 5#}
             \<longrightarrow> (total_events r = 10 \<longrightarrow> attack_rank r = 1)
               \<and> (total_events r = 5 \<longrightarrow> attack_rank r = 3))"
proof -
  let ?stats = "attacker_stats events"
  let ?all = "ranked ?stats"
  have rk: "\<And>x. x \<in> set ?all \<Longrightarrow>
      attack_rank x = 1 + length (filter (\<lambda>a. total_events x < total_events a) ?stats)"
    using ranked_row by blast
  have c0: "set (get_top_attackers limit events) \<subseteq> set ?all"
    by (auto simp: get_top_attackers_set)
  have c1: "total_events r = length (filter (\<lambda>e. source_ip e = source_ip' r) events)"
    by (rule ranked_total_events[OF r])
  have c2: "attack_rank r = 1 + length (filter (\<lambda>a. total_events r < total_events a) ?stats)"
    by (rule rk[OF r])
  have c3: "attack_rank r = 1" if mx: "\<forall>a\<in>set ?stats. total_events a \<le> total_events r"
  proof -
    have "filter (\<lambda>a. total_events r < total_events a) ?stats = []"
      using mx by (auto simp: filter_empty_conv)
    then show ?thesis by (simp add: c2)
  qed
  have c4: "\<forall>r2\<in>set ?all. total_events r2 = total_events r \<longrightarrow> attack_rank r2 = attack_rank r"
    by (simp add: rk r)
  have c5: "attack_rank r2 = attack_rank r + length (filter (\<lambda>a. total_events a = total_events r) ?stats)"
    if r2: "r2 \<in> set ?all" and lt: "total_events r2 < total_events r"
      and gap: "\<forall>a\<in>set ?stats. \<not> (total_events r2 < total_events a \<and> total_events a < total_events r)"
    for r2
  proof -
    have "filter (\<lambda>a. total_events r2 < total_events a) ?stats
        = filter (\<lambda>a. total_events r < total_events a \<or> total_events a = total_events r) ?stats"
      using lt gap by (intro filter_cong) auto
    moreover have "length (filter (\<lambda>a. total_events r < total_events a \<or> total_events a = total_events r) ?stats)
        = length (filter (\<lambda>a. total_events r < total_events a) ?stats)
          + length (filter (\<lambda>a. total_events a = total_events r) ?stats)"
      by (rule length_filter_disj) simp
    ultimately have "length (filter (\<lambda>a. total_events r2 < total_events a) ?stats)
        = length (filter (\<lambda>a. total_events r < total_events a) ?stats)
          + length (filter (\<lambda>a. total_events a = total_events r) ?stats)"
      by simp
    then show ?thesis by (simp add: rk[OF r2] c2)
  qed
  have c6: "(total_events r = 10 \<longrightarrow> attack_rank r = 1) \<and> (total_events r = 5 \<longrightarrow> attack_rank r = 3)"
    if ex: "mset (map total_events ?stats) = {#10, 10, 5#}"
  proof -
    have "length (filter (\<lambda>a. t < total_events a) ?stats) = size (filter_mset (\<lambda>x. t < x) {#10, 10, 5#})" for t
      by (simp only: length_filter_image_mset[of "\<lambda>x. t < x" total_events] ex)
    then show ?thesis by (simp add: c2)
  qed
  from c0 c1 c2 c3 c4 c5 c6 show ?thesis by blast
qed

text \<open>
  Claim C2. The percentile of every ranked entity is the percent rank rounded to 4
  decimal places: with \<open>n\<close> the number of entities (distinct source addresses) and \<open>r\<close>
  the entity's rank position in ascending order of total (one more than the number of
  entities with a strictly smaller total), it is \<open>(r - 1) / (n - 1)\<close> rounded, and 0 when
  \<open>n = 1\<close>. Rounded means: it is a multiple of 0.0001 at most half of 0.0001 away from
  the quotient, the upper one when the quotient lies halfway. Entities with equal totals
  have equal percentiles.
\<close>

theorem top_attackers_percentile:
  assumes r: "r \<in> set (ranked (attacker_stats events))"
  shows "length (attacker_stats events) = card (source_ip ` set events)
       \<and> percentile r =
           (if length (attacker_stats events) = 1 then 0
            else pg_round
                   ((of_nat (1 + length (filter (\<lambda>a. total_events a < total_events r)
                                           (attacker_stats events))) - 1)
                    / (of_nat (length (attacker_stats events)) - 1)) 4)
       \<and> (\<forall>r2\<in>set (ranked (attacker_stats events)).
             total_events r2 = total_events r \<longrightarrow> percentile r2 = percentile r)
       \<and> percentile r
           = of_int \<lfloor>percent_rank_formula
                      (ascending_position (attacker_stats events) (total_events r))
                      (length (attacker_stats events)) * 10 ^ 4 + 1 / 2\<rfloor> / 10 ^ 4
       \<and> percentile r * 10 ^ 4 \<in> \<int>
       \<and> percent_rank_formula (ascending_position (attacker_stats events) (total_events r))
             (length (attacker_stats events)) - 1 / 20000 < percentile r
       \<and> percentile r
           \<le> percent_rank_formula (ascending_position (attacker_stats events) (total_events r))
               (length (attacker_stats events)) + 1 / 20000"
proof -
  let ?stats = "attacker_stats events"
  let ?all = "ranked ?stats"
  let ?q = "percent_rank_formula (ascending_position ?stats (total_events r)) (length ?stats)"
  have pc: "\<And>x. x \<in> set ?all \<Longrightarrow> percentile x = pg_round
            (if length ?stats \<le> 1 then 0
             else of_nat (length (filter (\<lambda>b. total_events b < total_events x) ?stats))
                    / of_nat (length ?stats - 1)) 4"
    using ranked_row by blast
  have "length ?stats = length (map source_ip' ?stats)" by simp
  also have "\<dots> = card (source_ip ` set events)"
    unfolding attacker_stats_keys by (simp add: length_remdups_card_conv)
  finally have c1: "length ?stats = card (source_ip ` set events)" .
  have "length ?all = length ?stats"
    using ranked_totals[of ?stats] by (metis length_map size_mset)
  then have ne: "length ?stats \<noteq> 0" using r by auto
  have c2: "percentile r =
           (if length ?stats = 1 then 0
            else pg_round
                   ((of_nat (1 + length (filter (\<lambda>a. total_events a < total_events r) ?stats)) - 1)
                    / (of_nat (length ?stats) - 1)) 4)"
  proof (cases "length ?stats = 1")
    case True
    then show ?thesis by (simp add: pc[OF r] pg_round_def)
  next
    case False
    with ne have "\<not> length ?stats \<le> 1" by linarith
    then show ?thesis using False by (simp add: pc[OF r] of_nat_diff)
  qed
  have c3: "\<forall>r2\<in>set ?all. total_events r2 = total_events r \<longrightarrow> percentile r2 = percentile r"
    by (simp add: pc r)
  have q: "?q = (if length ?stats \<le> 1 then 0
             else of_nat (length (filter (\<lambda>b. total_events b < total_events r) ?stats))
                    / of_nat (length ?stats - 1))"
  proof (cases "length ?stats = 1")
    case True
    then show ?thesis by (simp add: percent_rank_formula_def)
  next
    case False
    with ne have "\<not> length ?stats \<le> 1" by linarith
    then show ?thesis using False
      by (simp add: percent_rank_formula_def ascending_position_def of_nat_diff)
  qed
  have q0: "0 \<le> ?q" unfolding q by simp
  have pq: "percentile r = pg_round ?q 4" by (simp only: pc[OF r] q)
  have c4: "percentile r = of_int \<lfloor>?q * 10 ^ 4 + 1 / 2\<rfloor> / 10 ^ 4"
    unfolding pq by (rule pg_round_floor[OF q0])
  have c5: "percentile r * 10 ^ 4 \<in> \<int>" unfolding pq by (rule pg_round_grid)
  have c6: "?q - 1 / 20000 < percentile r \<and> percentile r \<le> ?q + 1 / 20000"
    using pg_round_near[OF q0, of 4] by (simp add: pq)
  from c1 c2 c3 c4 c5 c6 show ?thesis by blast
qed

lemma ranked_length: "length (ranked stats) = length stats"
  using ranked_totals[of stats] by (metis length_map size_mset)

text \<open>
  Claim C6. \<^verbatim>\<open>get_top_attackers\<close> returns exactly the ranked entities with rank at most
  the limit, each once, in ascending order of rank; there is one ranked entity per source
  address. All entities tied with a returned entity are returned, and when a tie group
  with rank at most the limit reaches past position limit, more than limit rows are
  returned.
\<close>

theorem top_attackers_limit:
  "set (get_top_attackers limit events)
     = {r \<in> set (ranked (attacker_stats events)). int (attack_rank r) \<le> limit}
   \<and> mset (get_top_attackers limit events)
     = filter_mset (\<lambda>r. int (attack_rank r) \<le> limit) (mset (ranked (attacker_stats events)))
   \<and> sorted (map attack_rank (get_top_attackers limit events))
   \<and> distinct (map source_ip' (ranked (attacker_stats events)))
   \<and> set (map source_ip' (ranked (attacker_stats events))) = source_ip ` set events
   \<and> (\<forall>r\<in>set (get_top_attackers limit events). \<forall>r2\<in>set (ranked (attacker_stats events)).
         total_events r2 = total_events r \<longrightarrow> r2 \<in> set (get_top_attackers limit events))
   \<and> (\<forall>r\<in>set (ranked (attacker_stats events)).
         int (attack_rank r) \<le> limit
         \<and> limit < int (attack_rank r)
               + int (length (filter (\<lambda>a. total_events a = total_events r)
                        (ranked (attacker_stats events)))) - 1
         \<longrightarrow> limit < int (length (get_top_attackers limit events)))"
proof -
  let ?stats = "attacker_stats events"
  let ?all = "ranked ?stats"
  let ?out = "get_top_attackers limit events"
  have rk: "\<And>x. x \<in> set ?all \<Longrightarrow>
      attack_rank x = 1 + length (filter (\<lambda>a. total_events x < total_events a) ?stats)"
    using ranked_row by blast
  have c1: "set ?out = {r \<in> set ?all. int (attack_rank r) \<le> limit}"
    by (rule get_top_attackers_set)
  have c2: "mset ?out = filter_mset (\<lambda>r. int (attack_rank r) \<le> limit) (mset ?all)"
    by (simp add: get_top_attackers_def)
  have c3: "sorted (map attack_rank ?out)" by (simp add: get_top_attackers_def)
  have "distinct (map source_ip' ?stats)" by (simp add: attacker_stats_keys)
  then have c4: "distinct (map source_ip' ?all)"
    using mset_eq_imp_distinct_iff[OF ranked_ips[of ?stats]] by blast
  have "set (map source_ip' ?all) = set (map source_ip' ?stats)"
    using ranked_ips[of ?stats] by (metis set_mset_mset)
  then have c5: "set (map source_ip' ?all) = source_ip ` set events"
    by (simp add: attacker_stats_keys)
  have c6: "\<forall>r\<in>set ?out. \<forall>r2\<in>set ?all. total_events r2 = total_events r \<longrightarrow> r2 \<in> set ?out"
  proof (intro ballI impI)
    fix r r2
    assume r: "r \<in> set ?out" and r2: "r2 \<in> set ?all" and eq: "total_events r2 = total_events r"
    from r have ra: "r \<in> set ?all" and le: "int (attack_rank r) \<le> limit" by (simp_all add: c1)
    have "attack_rank r2 = attack_rank r" by (simp add: rk[OF r2] rk[OF ra] eq)
    with le r2 show "r2 \<in> set ?out" by (simp add: c1)
  qed
  have c7: "limit < int (length ?out)"
    if r: "r \<in> set ?all" and le: "int (attack_rank r) \<le> limit"
      and st: "limit < int (attack_rank r)
               + int (length (filter (\<lambda>a. total_events a = total_events r) ?all)) - 1"
    for r
  proof -
    have sub: "length (filter (\<lambda>a. total_events r \<le> total_events a) ?all)
        \<le> length (filter (\<lambda>a. int (attack_rank a) \<le> limit) ?all)"
    proof (rule length_filter_mono)
      fix a assume a: "a \<in> set ?all" and ge: "total_events r \<le> total_events a"
      have "length (filter (\<lambda>b. total_events a < total_events b) ?stats)
          \<le> length (filter (\<lambda>b. total_events r < total_events b) ?stats)"
        using ge by (intro length_filter_mono) simp
      then have "attack_rank a \<le> attack_rank r" by (simp add: rk[OF a] rk[OF r])
      with le show "int (attack_rank a) \<le> limit" by simp
    qed
    have "filter (\<lambda>a. total_events r \<le> total_events a) ?all
        = filter (\<lambda>a. total_events r < total_events a \<or> total_events a = total_events r) ?all"
      by (intro filter_cong) auto
    moreover have "length (filter (\<lambda>a. total_events r < total_events a \<or> total_events a = total_events r) ?all)
        = length (filter (\<lambda>a. total_events r < total_events a) ?all)
          + length (filter (\<lambda>a. total_events a = total_events r) ?all)"
      by (rule length_filter_disj) simp
    moreover have "length (filter (\<lambda>a. total_events r < total_events a) ?all)
        = length (filter (\<lambda>a. total_events r < total_events a) ?stats)"
      by (rule ranked_count[of "\<lambda>t. total_events r < t"])
    ultimately have "length (filter (\<lambda>a. total_events r \<le> total_events a) ?all)
        = attack_rank r - 1 + length (filter (\<lambda>a. total_events a = total_events r) ?all)"
      by (simp add: rk[OF r])
    moreover have "length ?out = length (filter (\<lambda>a. int (attack_rank a) \<le> limit) ?all)"
      by (simp add: get_top_attackers_def)
    moreover have "1 \<le> attack_rank r" by (simp add: rk[OF r])
    ultimately show ?thesis using sub st by linarith
  qed
  from c1 c2 c3 c4 c5 c6 c7 show ?thesis by blast
qed

lemma attacker_events_ranked:
  "ranked (attacker_stats attacker_events) = [attacker_row_c, attacker_row_a, attacker_row_b]"
  by code_simp

lemma attacker_events_totals:
  "map total_events (attacker_stats attacker_events) = [10, 5, 10]"
  by code_simp

lemma attacker_events_top1:
  "get_top_attackers 1 attacker_events = [attacker_row_a, attacker_row_b]"
  by code_simp

theorem top_attackers_rank_witness:
  "attacker_row_c \<in> set (ranked (attacker_stats attacker_events))
   \<and> attacker_row_a \<in> set (ranked (attacker_stats attacker_events))
   \<and> mset (map total_events (attacker_stats attacker_events)) = {#10, 10, 5#}
   \<and> attack_rank attacker_row_a = 1
   \<and> attack_rank attacker_row_c = 3
   \<and> 1 + length (filter (\<lambda>a. total_events attacker_row_c < total_events a)
                    (attacker_stats attacker_events)) = 3"
proof -
  have a: "attacker_row_a \<in> set (ranked (attacker_stats attacker_events))"
    and c: "attacker_row_c \<in> set (ranked (attacker_stats attacker_events))"
    by (simp_all add: attacker_events_ranked)
  have m: "mset (map total_events (attacker_stats attacker_events)) = {#10, 10, 5#}"
    by (simp add: attacker_events_totals)
  have ta: "total_events attacker_row_a = 10" and tc: "total_events attacker_row_c = 5"
    by (simp_all add: attacker_row_a_def attacker_row_c_def)
  from top_attackers_rank[OF a, of 1] m ta have ra: "attack_rank attacker_row_a = 1" by blast
  from top_attackers_rank[OF c, of 1] m tc have rc: "attack_rank attacker_row_c = 3"
    and "attack_rank attacker_row_c = 1 + length (filter (\<lambda>a. total_events attacker_row_c < total_events a)
                    (attacker_stats attacker_events))"
    by blast+
  with a c m ra show ?thesis by simp
qed

lemma percentile_events_ranked:
  "percentile_row \<in> set (ranked (attacker_stats percentile_events))"
  by code_simp

lemma percentile_events_formula:
  "percent_rank_formula (ascending_position (attacker_stats percentile_events) 3)
     (length (attacker_stats percentile_events)) = 2 / 3"
  by code_simp

theorem top_attackers_percentile_witness:
  "percentile_row \<in> set (ranked (attacker_stats percentile_events))
   \<and> card (source_ip ` set percentile_events) = 4
   \<and> percent_rank_formula (ascending_position (attacker_stats percentile_events) 3)
       (length (attacker_stats percentile_events)) = 2 / 3
   \<and> percentile percentile_row = 6667 / 10000
   \<and> of_int \<lfloor>percent_rank_formula
               (ascending_position (attacker_stats percentile_events) 3)
               (length (attacker_stats percentile_events)) * 10 ^ 4 + 1 / 2\<rfloor> / 10 ^ 4
       = (6667 / 10000 :: rat)"
proof -
  have l: "length (attacker_stats percentile_events) = 4" by code_simp
  have k: "total_events percentile_row = 3" "percentile percentile_row = 6667 / 10000"
    by (simp_all add: percentile_row_def)
  from top_attackers_percentile[OF percentile_events_ranked]
  have "length (attacker_stats percentile_events) = card (source_ip ` set percentile_events)"
    and "percentile percentile_row
           = of_int \<lfloor>percent_rank_formula
                      (ascending_position (attacker_stats percentile_events)
                         (total_events percentile_row))
                      (length (attacker_stats percentile_events)) * 10 ^ 4 + 1 / 2\<rfloor> / 10 ^ 4"
    by blast+
  then show ?thesis
    using percentile_events_ranked percentile_events_formula l by (simp only: k)
qed

theorem top_attackers_limit_witness:
  "attacker_row_a \<in> set (ranked (attacker_stats attacker_events))
   \<and> int (attack_rank attacker_row_a) \<le> 1
   \<and> length (filter (\<lambda>a. total_events a = total_events attacker_row_a)
                (ranked (attacker_stats attacker_events))) = 2
   \<and> 1 < int (length (get_top_attackers 1 attacker_events))
   \<and> set (get_top_attackers 1 attacker_events) = {attacker_row_a, attacker_row_b}"
proof -
  have a: "attacker_row_a \<in> set (ranked (attacker_stats attacker_events))"
    by (simp add: attacker_events_ranked)
  have le: "int (attack_rank attacker_row_a) \<le> 1" by (simp add: attacker_row_a_def)
  have tied: "length (filter (\<lambda>a. total_events a = total_events attacker_row_a)
                (ranked (attacker_stats attacker_events))) = 2"
    by (simp add: attacker_events_ranked attacker_row_a_def attacker_row_b_def attacker_row_c_def)
  have st: "1 < int (attack_rank attacker_row_a)
               + int (length (filter (\<lambda>a. total_events a = total_events attacker_row_a)
                        (ranked (attacker_stats attacker_events)))) - 1"
    by (simp only: tied) (simp add: attacker_row_a_def)
  from top_attackers_limit[of 1 attacker_events] a le st
  have "1 < int (length (get_top_attackers 1 attacker_events))" by blast
  moreover have "set (get_top_attackers 1 attacker_events) = {attacker_row_a, attacker_row_b}"
    by (simp add: attacker_events_top1)
  ultimately show ?thesis using a le tied by simp
qed

section \<open>Properties of the connection pool\<close>

lemma last_notin_butlast: "distinct xs \<Longrightarrow> xs \<noteq> [] \<Longrightarrow> last xs \<notin> set (butlast xs)"
proof -
  assume d: "distinct xs" and ne: "xs \<noteq> []"
  then have "distinct (butlast xs @ [last xs])" by simp
  then show ?thesis by simp
qed

lemma getconn_used:
  assumes g: "getconn ok p = Inr (conn, p')" and inv: "pool_ok (Some p)"
  shows "conn \<notin> used p \<and> used p' = insert conn (used p) \<and> \<not> closed p' \<and> pool_ok (Some p')"
proof (cases "idle p = []")
  case True
  with g have eq: "conn = opened p" "p' = p\<lparr>used := insert (opened p) (used p), opened := Suc (opened p)\<rparr>"
    and nc: "\<not> closed p"
    by (auto simp: getconn_def split: if_splits)
  have "opened p \<notin> used p" using inv by (auto simp: pool_ok_def)
  moreover have "pool_ok (Some p')"
    using inv True by (auto simp: pool_ok_def eq less_Suc_eq)
  ultimately show ?thesis using nc by (simp add: eq)
next
  case False
  with g have eq: "conn = last (idle p)"
      "p' = p\<lparr>idle := butlast (idle p), used := insert (last (idle p)) (used p)\<rparr>"
    and nc: "\<not> closed p"
    by (auto simp: getconn_def split: if_splits)
  have li: "last (idle p) \<in> set (idle p)" using False by simp
  then have nu: "last (idle p) \<notin> used p" and lo: "last (idle p) < opened p"
    using inv by (auto simp: pool_ok_def list_all_iff)
  have d: "distinct (idle p)" using inv by (simp add: pool_ok_def)
  have nb: "last (idle p) \<notin> set (butlast (idle p))" by (rule last_notin_butlast[OF d False])
  have "pool_ok (Some p')"
    using inv nb lo d by (auto simp: pool_ok_def eq list_all_iff distinct_butlast dest: in_set_butlastD)
  then show ?thesis using nu nc by (simp add: eq)
qed

lemma putconn_used:
  assumes inv: "pool_ok (Some p)" and c: "conn \<in> used p" and nc: "\<not> closed p"
  shows "\<exists>p'. putconn reus conn p = Inr p' \<and> used p' = used p - {conn} \<and> pool_ok (Some p')"
proof -
  define p' where "p' = (if length (idle p) < minconn p \<and> reus
                 then p\<lparr>idle := idle p @ [conn]\<rparr> else p)\<lparr>used := used p - {conn}\<rparr>"
  have "putconn reus conn p = Inr p'" using c nc by (simp add: putconn_def p'_def)
  moreover have "used p' = used p - {conn}" by (simp add: p'_def)
  moreover have "pool_ok (Some p')"
    using inv c by (auto simp: pool_ok_def p'_def list_all_iff)
  ultimately show ?thesis by blast
qed

lemma try_finally_release_used:
  assumes inv: "pool_ok (Some p)" and c: "conn \<in> used p" and nc: "\<not> closed p"
  shows "checked_out (snd (try_finally_release reus (Some p) conn outcome)) = used p - {conn}
       \<and> pool_ok (snd (try_finally_release reus (Some p) conn outcome))
       \<and> fst (try_finally_release reus (Some p) conn outcome) = outcome"
proof -
  from putconn_used[OF inv c nc, of reus] obtain p' where
    "putconn reus conn p = Inr p'" "used p' = used p - {conn}" "pool_ok (Some p')" by blast
  then show ?thesis
    by (simp add: try_finally_release_def release_connection_def checked_out_def)
qed

lemma acquire_release:
  assumes inv: "pool_ok pool"
  shows "(case get_connection ok pool of
            Inl e \<Rightarrow> True
          | Inr (conn, pool1) \<Rightarrow>
              conn \<notin> checked_out pool \<and> conn \<in> checked_out pool1
              \<and> checked_out (snd (try_finally_release reus pool1 conn outcome)) = checked_out pool
              \<and> pool_ok (snd (try_finally_release reus pool1 conn outcome))
              \<and> fst (try_finally_release reus pool1 conn outcome) = outcome)"
proof (cases pool)
  case None
  then show ?thesis by (simp add: get_connection_def)
next
  case (Some p)
  show ?thesis
  proof (cases "getconn ok p")
    case (Inl e)
    then show ?thesis by (simp add: get_connection_def Some)
  next
    case (Inr r)
    obtain conn p' where r: "r = (conn, p')" by (cases r)
    from getconn_used[OF Inr[unfolded r]] inv Some
    have g: "conn \<notin> used p" "used p' = insert conn (used p)" "\<not> closed p'" "pool_ok (Some p')"
      by simp_all
    have c: "conn \<in> used p'" using g(2) by simp
    from try_finally_release_used[OF g(4) c g(3), where reus = reus and outcome = outcome] g(1,2) c
    show ?thesis by (simp add: get_connection_def Some Inr r checked_out_def)
  qed
qed

text \<open>
  Claim C9. A call of \<^verbatim>\<open>execute_query\<close> or \<^verbatim>\<open>execute_scalar\<close> takes one connection
  from the pool and returns it on every exit path. For every state the pool can be in and
  whatever the store does with the statement: when a connection is obtained it was not
  checked out before, it is checked out while the statement runs, the outcome of the call
  is the outcome of its body (a result or the error raised), and after the call the set of
  checked-out connections is the one before the call; when no connection is obtained the
  call raises and the pool is unchanged. The pool stays in such a state.
\<close>

theorem execute_query_releases:
  assumes inv: "pool_ok pool"
  shows "checked_out (snd (execute_query env pool query params fetch_all)) = checked_out pool
       \<and> pool_ok (snd (execute_query env pool query params fetch_all))
       \<and> checked_out (snd (execute_scalar env pool query params)) = checked_out pool
       \<and> pool_ok (snd (execute_scalar env pool query params))
       \<and> (\<forall>conn pool1. get_connection (connect_ok env) pool = Inr (conn, pool1) \<longrightarrow>
             conn \<notin> checked_out pool \<and> conn \<in> checked_out pool1
             \<and> fst (execute_query env pool query params fetch_all)
                 = query_body env conn query params fetch_all
             \<and> fst (execute_scalar env pool query params) = scalar_body env conn query params)
       \<and> (\<forall>e. get_connection (connect_ok env) pool = Inl e \<longrightarrow>
             execute_query env pool query params fetch_all = (Inl e, pool)
             \<and> execute_scalar env pool query params = (Inl e, pool))"
proof -
  have q: "checked_out (snd (execute_query env pool query params fetch_all)) = checked_out pool
       \<and> pool_ok (snd (execute_query env pool query params fetch_all))"
  proof (cases "get_connection (connect_ok env) pool")
    case (Inl e)
    then show ?thesis using inv by (simp add: execute_query_def)
  next
    case (Inr r)
    obtain conn pool1 where r: "r = (conn, pool1)" by (cases r)
    from acquire_release[OF inv, where ok = "connect_ok env" and reus = "reusable env"
        and outcome = "query_body env conn query params fetch_all"] Inr r
    show ?thesis by (simp add: execute_query_def)
  qed
  have s: "checked_out (snd (execute_scalar env pool query params)) = checked_out pool
       \<and> pool_ok (snd (execute_scalar env pool query params))"
  proof (cases "get_connection (connect_ok env) pool")
    case (Inl e)
    then show ?thesis using inv by (simp add: execute_scalar_def)
  next
    case (Inr r)
    obtain conn pool1 where r: "r = (conn, pool1)" by (cases r)
    from acquire_release[OF inv, where ok = "connect_ok env" and reus = "reusable env"
        and outcome = "scalar_body env conn query params"] Inr r
    show ?thesis by (simp add: execute_scalar_def)
  qed
  have a: "conn \<notin> checked_out pool \<and> conn \<in> checked_out pool1
             \<and> fst (execute_query env pool query params fetch_all)
                 = query_body env conn query params fetch_all
             \<and> fst (execute_scalar env pool query params) = scalar_body env conn query params"
    if g: "get_connection (connect_ok env) pool = Inr (conn, pool1)" for conn pool1
  proof -
    from acquire_release[OF inv, where ok = "connect_ok env" and reus = "reusable env"
        and outcome = "query_body env conn query params fetch_all"] g
    have 1: "conn \<notin> checked_out pool" "conn \<in> checked_out pool1"
      "fst (execute_query env pool query params fetch_all) = query_body env conn query params fetch_all"
      by (simp_all add: execute_query_def)
    from acquire_release[OF inv, where ok = "connect_ok env" and reus = "reusable env"
        and outcome = "scalar_body env conn query params"] g
    have "fst (execute_scalar env pool query params) = scalar_body env conn query params"
      by (simp add: execute_scalar_def)
    with 1 show ?thesis by simp
  qed
  have e: "execute_query env pool query params fetch_all = (Inl e, pool)
             \<and> execute_scalar env pool query params = (Inl e, pool)"
    if "get_connection (connect_ok env) pool = Inl e" for e
    using that by (simp add: execute_query_def execute_scalar_def)
  from q s a e show ?thesis by blast
qed

theorem execute_query_releases_witness:
  "pool_ok sample_pool
   \<and> fst (execute_query failing_env sample_pool ''SELECT 1'' [] True) = Inl DatabaseError
   \<and> checked_out (snd (execute_query failing_env sample_pool ''SELECT 1'' [] True)) = {1}
   \<and> checked_out (snd (execute_scalar failing_env sample_pool ''SELECT 1'' [])) = {1}"
proof -
  have ok: "pool_ok sample_pool" by (simp add: pool_ok_def sample_pool_def)
  have f: "fst (execute_query failing_env sample_pool ''SELECT 1'' [] True) = Inl DatabaseError"
    by (simp add: execute_query_def get_connection_def getconn_def sample_pool_def
          failing_env_def try_finally_release_def release_connection_def putconn_def
          query_body_def)
  have c: "checked_out sample_pool = {1}" by (simp add: checked_out_def sample_pool_def)
  from execute_query_releases[OF ok, of failing_env "''SELECT 1''" "[]" True]
  have "checked_out (snd (execute_query failing_env sample_pool ''SELECT 1'' [] True))
          = checked_out sample_pool"
    and "checked_out (snd (execute_scalar failing_env sample_pool ''SELECT 1'' []))
          = checked_out sample_pool"
    by blast+
  with ok f c show ?thesis by simp
qed

lemma init_pool_ok: "init_pool ok minc maxc = Inr pool \<Longrightarrow> pool_ok pool \<and> checked_out pool = {}"
  by (auto simp: init_pool_def pool_ok_def checked_out_def list_all_iff split: if_splits)

section \<open>Properties of the paginated events\<close>
























section \<open>Properties of the KPI summary\<close>

text \<open>
  Claim C8. For the empty event set \<^verbatim>\<open>get_kpis\<close> returns the record with the thirteen
  fields of the summary, each 0: both when the view yields its record for no events and
  when the query yields no row.
\<close>

theorem kpis_empty:
  "get_kpis (Some (v_kpi_summary now [])) = get_kpis None
   \<and> map fst (get_kpis None)
       = [''total_events'', ''critical_events'', ''high_events'', ''medium_events'',
          ''low_events'', ''avg_severity_score'', ''unique_source_ips'', ''unique_dest_ips'',
          ''unique_event_types'', ''unique_threat_categories'', ''events_last_24h'',
          ''severe_last_24h'', ''avg_events_per_hour'']
   \<and> map snd (get_kpis None) = replicate 13 0
   \<and> map snd (get_kpis (Some (v_kpi_summary now []))) = replicate 13 0"
  by (simp add: get_kpis_def v_kpi_summary_def serialize_row_def count_distinct_def agg_min_def
        agg_max_def numeral_eq_Suc)

end
